theory Spec2Isabelle
  imports Complex_Main "HOL-Library.Product_Lexorder"
begin

section \<open>Connectivity state tracker (src/core/lib/transport/connectivity_state.cc)\<close>

text \<open>
  The C++ members \<open>state_\<close>, \<open>status_\<close>, \<open>watchers_\<close> are written \<open>state_m\<close>,
  \<open>status_m\<close>, \<open>watchers_m\<close>: an identifier may not end in an underscore here.
  A watcher is identified by its address, an \<open>absl::Status\<close> by its text. The watcher
  container is a set; the list holds its elements without duplicates in the order the
  container iterates over them. Every operation returns the tracker together with the
  notifications (\<open>watcher->Notify(state, status)\<close>) it issued, in order.
\<close>

datatype grpc_connectivity_state =
    GRPC_CHANNEL_IDLE
  | GRPC_CHANNEL_CONNECTING
  | GRPC_CHANNEL_READY
  | GRPC_CHANNEL_TRANSIENT_FAILURE
  | GRPC_CHANNEL_SHUTDOWN

type_synonym watcher = nat
type_synonym status = string
type_synonym notification = "watcher \<times> grpc_connectivity_state \<times> status"

record ConnectivityStateTracker =
  name_m :: string
  state_m :: grpc_connectivity_state
  status_m :: status
  watchers_m :: "watcher list"

fun ConnectivityStateName :: "grpc_connectivity_state \<Rightarrow> string" where
  "ConnectivityStateName GRPC_CHANNEL_IDLE = ''IDLE''"
| "ConnectivityStateName GRPC_CHANNEL_CONNECTING = ''CONNECTING''"
| "ConnectivityStateName GRPC_CHANNEL_READY = ''READY''"
| "ConnectivityStateName GRPC_CHANNEL_TRANSIENT_FAILURE = ''TRANSIENT_FAILURE''"
| "ConnectivityStateName GRPC_CHANNEL_SHUTDOWN = ''SHUTDOWN''"

text \<open>
  Modelled from the spec: the constructor of \<open>ConnectivityStateTracker\<close> is declared in
  connectivity_state.h, which is not among the sources. The spec: "Initial state is
  supplied at construction; if not, IDLE", with no watcher attached.
\<close>

definition NewTracker ::
  "string \<Rightarrow> grpc_connectivity_state \<Rightarrow> status \<Rightarrow> ConnectivityStateTracker" where
  "NewTracker name st status =
     \<lparr>name_m = name, state_m = st, status_m = status, watchers_m = []\<rparr>"

definition AddWatcher ::
  "ConnectivityStateTracker \<Rightarrow> grpc_connectivity_state \<Rightarrow> watcher
     \<Rightarrow> ConnectivityStateTracker \<times> notification list" where
  "AddWatcher t initial_state w =
     (let current_state = state_m t;
          notes = (if initial_state \<noteq> current_state
                   then [(w, current_state, status_m t)] else []);
          t' = (if current_state \<noteq> GRPC_CHANNEL_SHUTDOWN
                then t\<lparr>watchers_m := List.insert w (watchers_m t)\<rparr> else t)
      in (t', notes))"

definition RemoveWatcher ::
  "ConnectivityStateTracker \<Rightarrow> watcher \<Rightarrow> ConnectivityStateTracker" where
  "RemoveWatcher t w = t\<lparr>watchers_m := removeAll w (watchers_m t)\<rparr>"

definition SetState ::
  "ConnectivityStateTracker \<Rightarrow> grpc_connectivity_state \<Rightarrow> status \<Rightarrow> string
     \<Rightarrow> ConnectivityStateTracker \<times> notification list" where
  "SetState t st status reason =
     (let current_state = state_m t in
      if st = current_state then (t, [])
      else
        (let notes = map (\<lambda>w. (w, st, status)) (watchers_m t);
             t1 = t\<lparr>state_m := st, status_m := status\<rparr>;
             t2 = (if st = GRPC_CHANNEL_SHUTDOWN then t1\<lparr>watchers_m := []\<rparr> else t1)
         in (t2, notes)))"

definition state :: "ConnectivityStateTracker \<Rightarrow> grpc_connectivity_state" where
  "state t = state_m t"

text \<open>A sequence of \<open>SetState\<close> calls, with all the notifications it issues.\<close>

fun SetStates ::
  "ConnectivityStateTracker \<Rightarrow> (grpc_connectivity_state \<times> status \<times> string) list
     \<Rightarrow> ConnectivityStateTracker \<times> notification list" where
  "SetStates t [] = (t, [])"
| "SetStates t ((st, status, reason) # calls) =
     (let (t1, n1) = SetState t st status reason;
          (t2, n2) = SetStates t1 calls
      in (t2, n1 @ n2))"

text \<open>The trackers a program can build: a constructor call followed by any operations.\<close>

inductive reachable :: "ConnectivityStateTracker \<Rightarrow> bool" where
  reach_new: "reachable (NewTracker name st status)"
| reach_add: "reachable t \<Longrightarrow> reachable (fst (AddWatcher t hint w))"
| reach_remove: "reachable t \<Longrightarrow> reachable (RemoveWatcher t w)"
| reach_set: "reachable t \<Longrightarrow> reachable (fst (SetState t st status reason))"

text \<open>The tracker used in the examples: created IDLE, one watcher, then shut down.\<close>

definition shut_tracker :: ConnectivityStateTracker where
  "shut_tracker =
     fst (SetState (fst (AddWatcher (NewTracker ''t'' GRPC_CHANNEL_IDLE '''')
                           GRPC_CHANNEL_IDLE 1))
            GRPC_CHANNEL_SHUTDOWN ''closed'' ''shutdown'')"

section \<open>Configuration loading (src/core/config/load_config.cc)\<close>

text \<open>
  The process environment is a map from variable names to values; \<open>GetEnv\<close> (env.h) is
  the lookup. \<open>ABSL_CHECK\<close> aborts the process: the string overload returns \<open>None\<close>
  there.
\<close>

type_synonym environment = "string \<rightharpoonup> string"

definition LoadEnv :: "environment \<Rightarrow> string \<Rightarrow> string option" where
  "LoadEnv env environment_variable = env environment_variable"

definition LoadConfigFromEnv_string :: "environment \<Rightarrow> string \<Rightarrow> string \<Rightarrow> string option" where
  "LoadConfigFromEnv_string env environment_variable default_value =
     (if environment_variable = [] then None
      else Some (case LoadEnv env environment_variable of
                   Some v \<Rightarrow> v | None \<Rightarrow> default_value))"

definition LoadConfigFromEnv_bool :: "environment \<Rightarrow> string \<Rightarrow> bool \<Rightarrow> bool" where
  "LoadConfigFromEnv_bool env environment_variable default_value = default_value"

section \<open>The t-digest (src/core/util/tdigest.cc)\<close>

subsection \<open>Doubles\<close>

text \<open>
  A \<open>double\<close> that the digest stores is an exact real: rounding and the infinities
  are outside this development. NaN is kept where the code produces it or can be handed
  it: the argument and the result of the queries, and the merge limit when the
  compression is zero. A comparison with NaN is false, an operation on NaN gives NaN,
  and so does a division by zero.
\<close>

datatype dbl = Val real | NaN

instantiation dbl :: "{plus, minus, times, inverse, ord}"
begin

definition plus_dbl :: "dbl \<Rightarrow> dbl \<Rightarrow> dbl" where
  "plus_dbl a b = (case (a, b) of (Val x, Val y) \<Rightarrow> Val (x + y) | _ \<Rightarrow> NaN)"

definition minus_dbl :: "dbl \<Rightarrow> dbl \<Rightarrow> dbl" where
  "minus_dbl a b = (case (a, b) of (Val x, Val y) \<Rightarrow> Val (x - y) | _ \<Rightarrow> NaN)"

definition times_dbl :: "dbl \<Rightarrow> dbl \<Rightarrow> dbl" where
  "times_dbl a b = (case (a, b) of (Val x, Val y) \<Rightarrow> Val (x * y) | _ \<Rightarrow> NaN)"

definition divide_dbl :: "dbl \<Rightarrow> dbl \<Rightarrow> dbl" where
  "divide_dbl a b =
     (case (a, b) of (Val x, Val y) \<Rightarrow> if y = 0 then NaN else Val (x / y) | _ \<Rightarrow> NaN)"

definition inverse_dbl :: "dbl \<Rightarrow> dbl" where
  "inverse_dbl a = (case a of Val x \<Rightarrow> if x = 0 then NaN else Val (inverse x) | NaN \<Rightarrow> NaN)"

definition less_dbl :: "dbl \<Rightarrow> dbl \<Rightarrow> bool" where
  "less_dbl a b = (case (a, b) of (Val x, Val y) \<Rightarrow> x < y | _ \<Rightarrow> False)"

definition less_eq_dbl :: "dbl \<Rightarrow> dbl \<Rightarrow> bool" where
  "less_eq_dbl a b = (case (a, b) of (Val x, Val y) \<Rightarrow> x \<le> y | _ \<Rightarrow> False)"

instance ..

end

text \<open>The operator \<open>==\<close> on doubles: false as soon as one side is NaN.\<close>

definition dbl_eq :: "dbl \<Rightarrow> dbl \<Rightarrow> bool" where
  "dbl_eq a b = (case (a, b) of (Val x, Val y) \<Rightarrow> x = y | _ \<Rightarrow> False)"

definition of_count :: "int \<Rightarrow> dbl" where
  "of_count n = Val (real_of_int n)"

definition DBL_MAX :: real where
  "DBL_MAX = (2 - 1 / 2 ^ 52) * 2 ^ 1023"

subsection \<open>Data\<close>

record CentroidPod =
  mean :: real
  count :: int

text \<open>
  The members \<open>compression_\<close>, \<open>centroids_\<close>, ... are written \<open>compression_m\<close>,
  \<open>centroids_m\<close>, ... Counts are \<open>int64_t\<close> in the source; signed overflow is undefined
  there and the model has unbounded integers. The two cursors \<open>merged_\<close> and
  \<open>unmerged_\<close> and the batch size never go below zero and are naturals.
\<close>

record TDigest =
  compression_m :: real
  batch_size_m :: nat
  centroids_m :: "CentroidPod list"
  merged_m :: nat
  unmerged_m :: nat
  min_m :: real
  max_m :: real
  sum_m :: real
  count_m :: int

definition kMaxCompression :: real where
  "kMaxCompression = 1000000"

definition BoundedCompression :: "real \<Rightarrow> real" where
  "BoundedCompression compression = min kMaxCompression compression"

definition MaxCentroids :: "real \<Rightarrow> nat" where
  "MaxCentroids compression = 2 * nat \<lceil>BoundedCompression compression\<rceil>"

definition LinearInterpolate :: "dbl \<Rightarrow> dbl \<Rightarrow> dbl \<Rightarrow> dbl \<Rightarrow> dbl" where
  "LinearInterpolate val1 val2 weight1 weight2 =
     (val1 * weight1 + val2 * weight2) / (weight1 + weight2)"

text \<open>
  \<open>Reset\<close> assigns every member, so its result does not depend on the digest it is
  called on; the constructor \<open>TDigest(compression)\<close> is \<open>Reset compression\<close>.
\<close>

definition Reset :: "real \<Rightarrow> TDigest" where
  "Reset compression =
     (let c = BoundedCompression compression in
      \<lparr>compression_m = c,
       batch_size_m = 4 * MaxCentroids c,
       centroids_m = [],
       merged_m = 0,
       unmerged_m = 0,
       min_m = DBL_MAX,
       max_m = - DBL_MAX,
       sum_m = 0,
       count_m = 0\<rparr>)"

text \<open>
  Modelled from the spec: \<open>UpdateStats\<close> and the order on \<open>CentroidPod\<close> are defined in
  tdigest.h, which is not among the sources. The spec: add "updates
  min = min(min, value), max = max(max, value), sum += value*count, count += count", and
  the merge sorts the centroids "in place by (mean, count)".
\<close>

definition UpdateStats :: "TDigest \<Rightarrow> real \<Rightarrow> real \<Rightarrow> real \<Rightarrow> int \<Rightarrow> TDigest" where
  "UpdateStats d mn mx sm cnt =
     d\<lparr>min_m := min (min_m d) mn,
       max_m := max (max_m d) mx,
       sum_m := sum_m d + sm,
       count_m := count_m d + cnt\<rparr>"

definition sort_centroids :: "CentroidPod list \<Rightarrow> CentroidPod list" where
  "sort_centroids cs = sort_key (\<lambda>c. (mean c, count c)) cs"

subsection \<open>The scale function\<close>

text \<open>
  \<open>kPi\<close> is the double nearest to \<open>\<pi>\<close>, here \<open>\<pi>\<close> itself. With compression zero
  \<open>CentroidToQuantile\<close> computes \<open>0 * kPi / 0\<close>, which is NaN.
\<close>

definition QuantileToCentroid :: "real \<Rightarrow> real \<Rightarrow> real" where
  "QuantileToCentroid compression quantile =
     compression * (arcsin (2 * quantile - 1) + pi / 2) / pi"

definition CentroidToQuantile :: "real \<Rightarrow> real \<Rightarrow> dbl" where
  "CentroidToQuantile compression centroid =
     (if compression = 0 then NaN
      else Val ((sin (min centroid compression * pi / compression - pi / 2) + 1) / 2))"

subsection \<open>Merging\<close>

text \<open>
  The loop of \<open>DoMerge\<close> works in place on the sorted buffer with two cursors,
  \<open>last_merged\<close> and \<open>first_unmerged\<close> (indices here), and runs once for each unmerged
  centroid. The buffer reads are in range when
  \<open>first_unmerged + unmerged \<le> size\<close>, which \<open>merged_ + unmerged_ = size\<close> gives.
\<close>

record merge_vars =
  buf :: "CentroidPod list"
  last_merged :: nat
  first_unmerged :: nat
  mv_merged :: nat
  merged_count :: int
  q_limit :: dbl
  mv_sum :: real

definition merge_step :: "real \<Rightarrow> int \<Rightarrow> merge_vars \<Rightarrow> merge_vars" where
  "merge_step compression total_count v =
     (let lm = buf v ! last_merged v; fu = buf v ! first_unmerged v in
      if of_count (count fu + merged_count v) \<le> q_limit v then
        (let cnt = count lm + count fu;
             lm' = \<lparr>mean = mean lm
                              + ((mean fu - mean lm) * real_of_int (count fu)) / real_of_int cnt,
                    count = cnt\<rparr>
         in v\<lparr>buf := (buf v)[last_merged v := lm'],
              merged_count := merged_count v + count fu,
              first_unmerged := first_unmerged v + 1\<rparr>)
      else
        (let q0 = QuantileToCentroid compression
                    (real_of_int (merged_count v) / real_of_int total_count)
         in v\<lparr>q_limit := of_count total_count * CentroidToQuantile compression (q0 + 1),
              merged_count := merged_count v + count fu,
              mv_sum := mv_sum v + mean lm * real_of_int (count lm),
              mv_merged := mv_merged v + 1,
              last_merged := last_merged v + 1,
              buf := (buf v)[last_merged v + 1 := fu],
              first_unmerged := first_unmerged v + 1\<rparr>))"

fun merge_loop :: "real \<Rightarrow> int \<Rightarrow> nat \<Rightarrow> merge_vars \<Rightarrow> merge_vars" where
  "merge_loop compression total_count 0 v = v"
| "merge_loop compression total_count (Suc unmerged) v =
     merge_loop compression total_count unmerged (merge_step compression total_count v)"

definition DoMerge :: "TDigest \<Rightarrow> TDigest" where
  "DoMerge d =
     (if unmerged_m d = 0 then d
      else
        (let cs = sort_centroids (centroids_m d);
             unmerged = unmerged_m d + merged_m d - 1;
             total_count = count_m d;
             v = merge_loop (compression_m d) total_count unmerged
                   \<lparr>buf = cs, last_merged = 0, first_unmerged = 1, mv_merged = 1,
                    merged_count = count (cs ! 0),
                    q_limit = of_count total_count
                                * CentroidToQuantile (compression_m d) (0 + 1),
                    mv_sum = 0\<rparr>;
             lm = buf v ! last_merged v;
             cs' = take (mv_merged v) (buf v);
             d1 = d\<lparr>centroids_m := cs',
                    merged_m := mv_merged v,
                    unmerged_m := 0,
                    sum_m := mv_sum v + mean lm * real_of_int (count lm)\<rparr>
         in if cs' \<noteq> []
            then d1\<lparr>min_m := min (min_m d1) (mean (hd cs')),
                    max_m := max (max_m d1) (mean (last cs'))\<rparr>
            else d1))"

subsection \<open>Ingest\<close>

definition AddUnmergedCentroid :: "TDigest \<Rightarrow> CentroidPod \<Rightarrow> TDigest" where
  "AddUnmergedCentroid d centroid =
     (let d1 = d\<lparr>centroids_m := centroids_m d @ [centroid],
                  unmerged_m := unmerged_m d + 1\<rparr>
      in if unmerged_m d1 = batch_size_m d1 then DoMerge d1 else d1)"

definition Add :: "TDigest \<Rightarrow> real \<Rightarrow> int \<Rightarrow> TDigest" where
  "Add d val cnt =
     (if cnt = 0 then d
      else AddUnmergedCentroid (UpdateStats d val val (val * real_of_int cnt) cnt)
             \<lparr>mean = val, count = cnt\<rparr>)"

definition Merge :: "TDigest \<Rightarrow> TDigest \<Rightarrow> TDigest" where
  "Merge d that =
     (let d1 = (if compression_m d = 0 then Reset (compression_m that) else d);
          d2 = UpdateStats d1 (min_m that) (max_m that) (sum_m that) (count_m that)
      in foldl AddUnmergedCentroid d2 (centroids_m that))"

subsection \<open>Queries\<close>

text \<open>
  \<open>Cdf\<close> indexes the buffer at \<open>i\<close> and \<open>i + 1\<close>; every such read is written as a
  checked one, and \<open>None\<close> is a read outside \<open>[0, size)\<close> (undefined behaviour of
  \<open>operator[]\<close> and \<open>back()\<close>). \<open>ABSL_DCHECK\<close>s are compiled out of a release build
  and do not appear; \<open>ABSL_LOG(DFATAL)\<close> logs and goes on.
\<close>

definition read_at :: "'a list \<Rightarrow> nat \<Rightarrow> 'a option" where
  "read_at xs i = (if i < length xs then Some (xs ! i) else None)"

definition read_back :: "'a list \<Rightarrow> 'a option" where
  "read_back xs = (if xs = [] then None else Some (last xs))"

text \<open>The inner loop of \<open>Cdf\<close> over centroids with the mean \<open>val\<close>.\<close>

function cdf_collapse :: "CentroidPod list \<Rightarrow> dbl \<Rightarrow> nat \<Rightarrow> real \<Rightarrow> real option" where
  "cdf_collapse cs val i accum_count =
     (if i + 1 < length cs then
        (if dbl_eq (Val (mean (cs ! (i + 1)))) val then
           cdf_collapse cs val (i + 1)
             (accum_count + real_of_int (count (cs ! i) + count (cs ! (i + 1))))
         else Some accum_count)
      else None)"
  by pat_completeness auto
termination
  by (relation "measure (\<lambda>(cs, val, i, accum_count). length cs - i)") auto

function cdf_scan :: "CentroidPod list \<Rightarrow> int \<Rightarrow> dbl \<Rightarrow> nat \<Rightarrow> real \<Rightarrow> dbl option" where
  "cdf_scan cs cnt val i accum_count =
     (if i < length cs then
        (if dbl_eq (Val (mean (cs ! i))) val then
           (case cdf_collapse cs val i accum_count of
              None \<Rightarrow> None
            | Some accum_count' \<Rightarrow>
                Some (Val (accum_count + accum_count') / Val 2 / of_count cnt))
         else
           (case (if Val (mean (cs ! i)) \<le> val
                  then map_option (\<lambda>c. val < Val (mean c)) (read_at cs (i + 1))
                  else Some False) of
              None \<Rightarrow> None
            | Some True \<Rightarrow>
                (let mean1 = mean (cs ! i);
                     mean2 = mean (cs ! (i + 1));
                     mean_ratio = (if mean2 \<le> mean1 then Val 1
                                   else (val - Val mean1) / Val (mean2 - mean1));
                     delta_count = real_of_int (count (cs ! i) + count (cs ! (i + 1))) / 2
                 in Some ((Val accum_count + Val delta_count * mean_ratio) / of_count cnt))
            | Some False \<Rightarrow>
                (if i + 1 < length cs
                 then cdf_scan cs cnt val (i + 1)
                        (accum_count
                         + real_of_int (count (cs ! i) + count (cs ! (i + 1))) / 2)
                 else None)))
      else Some NaN)"
  by pat_completeness auto
termination
  by (relation "measure (\<lambda>(cs, cnt, val, i, accum_count). length cs - i)") auto

definition Cdf :: "TDigest \<Rightarrow> dbl \<Rightarrow> dbl option \<times> TDigest" where
  "Cdf d0 val =
     (let d = DoMerge d0; cs = centroids_m d in
      (if merged_m d = 0 then Some NaN
       else if val < Val (min_m d) then Some (Val 0)
       else if val \<ge> Val (max_m d) then Some (Val 1)
       else if merged_m d = 1
         then Some ((val - Val (min_m d)) / Val (min_m d - max_m d))
       else
         (case read_at cs 0 of
            None \<Rightarrow> None
          | Some c0 \<Rightarrow>
              if val < Val (mean c0) then
                Some (LinearInterpolate (Val 0) (of_count (count c0) / of_count (count_m d) / Val 2)
                        (Val (mean c0) - val) (val - Val (min_m d)))
              else
                (case read_back cs of
                   None \<Rightarrow> None
                 | Some cl \<Rightarrow>
                     if val \<ge> Val (mean cl) then
                       Some (LinearInterpolate
                               (Val 1 - of_count (count cl) / of_count (count_m d) / Val 2) (Val 1)
                               (Val (max_m d) - val) (val - Val (mean cl)))
                     else cdf_scan cs (count_m d) val 0 (real_of_int (count c0) / 2))),
       d))"

subsection \<open>Parsing\<close>

text \<open>
  \<open>absl::SimpleAtod\<close> and \<open>absl::SimpleAtoi\<close> are library functions; \<open>FromString\<close> takes
  them as parameters (\<open>None\<close> is their \<open>false\<close>). A token they read as NaN or as an
  infinity has no value here. \<open>absl::StrSplit\<close> with a character delimiter cuts at
  every occurrence and keeps empty pieces. The sum check of \<open>FromString\<close> is an
  \<open>ABSL_DCHECK\<close> and is absent from a release build.
\<close>

datatype Status = OkStatus | InvalidArgumentError string

fun StrSplit :: "string \<Rightarrow> char \<Rightarrow> string list" where
  "StrSplit [] delim = [[]]"
| "StrSplit (x # xs) delim =
     (if x = delim then [] # StrSplit xs delim
      else (case StrSplit xs delim of [] \<Rightarrow> [[x]] | t # ts \<Rightarrow> (x # t) # ts))"

text \<open>
  The loop over the centroid tokens \<open>mean:count\<close>; it returns the token it could not
  read, if any, and the digest as it is then.
\<close>

fun parse_centroids ::
  "(string \<Rightarrow> real option) \<Rightarrow> (string \<Rightarrow> int option) \<Rightarrow> TDigest \<Rightarrow> string list
     \<Rightarrow> string option \<times> TDigest" where
  "parse_centroids SimpleAtod SimpleAtoi d [] = (None, d)"
| "parse_centroids SimpleAtod SimpleAtoi d (tok # toks) =
     (if CHR '':'' \<notin> set tok then (Some tok, d)
      else
        (let pos = length (takeWhile (\<lambda>c. c \<noteq> CHR '':'') tok) in
         case SimpleAtod (take pos tok) of
           None \<Rightarrow> (Some tok, d)
         | Some double_val \<Rightarrow>
             (case SimpleAtoi (drop (pos + 1) tok) of
                None \<Rightarrow> (Some tok, d)
              | Some int_val \<Rightarrow>
                  parse_centroids SimpleAtod SimpleAtoi (Add d double_val int_val) toks)))"

definition FromString ::
  "(string \<Rightarrow> real option) \<Rightarrow> (string \<Rightarrow> int option) \<Rightarrow> TDigest \<Rightarrow> string
     \<Rightarrow> Status \<times> TDigest" where
  "FromString SimpleAtod SimpleAtoi d string =
     (if string = [] then (OkStatus, Reset 0)
      else
        (case StrSplit string CHR ''/'' of
           [] \<Rightarrow> (InvalidArgumentError ''No compression/discrete.'', d)
         | t0 # ts \<Rightarrow>
             if t0 = [] then (InvalidArgumentError ''No compression/discrete.'', d)
             else
               (case SimpleAtod t0 of
                  None \<Rightarrow> (InvalidArgumentError (''Invalid double_val/discrete: '' @ t0), d)
                | Some double_val \<Rightarrow>
                    if double_val < 0
                    then (InvalidArgumentError (''Invalid double_val/discrete: '' @ t0), d)
                    else
                      (let d1 = Reset double_val in
                       case ts of
                         [] \<Rightarrow> (InvalidArgumentError ''Unexpected end of string.'', d1)
                       | [t1] \<Rightarrow>
                           (case SimpleAtod t1 of
                              None \<Rightarrow> (InvalidArgumentError (''Invalid single-value: '' @ t1), d1)
                            | Some v \<Rightarrow> (OkStatus, Add d1 v 1))
                       | t1 # t2 # ts2 \<Rightarrow>
                           (case (SimpleAtod t1, SimpleAtod t2, ts2) of
                              (Some mn, Some mx, t3 # t4 # ts4) \<Rightarrow>
                                (case (SimpleAtod t3, SimpleAtoi t4) of
                                   (Some sm, Some cnt) \<Rightarrow>
                                     if ts4 = [] then
                                       (if mn \<noteq> 0 \<or> mx \<noteq> 0 \<or> cnt \<noteq> 0 \<or> sm \<noteq> 0
                                        then (InvalidArgumentError
                                                ''Empty t-Digest with non-zero min, max, sum, or count.'',
                                              d1)
                                        else (OkStatus, d1))
                                     else
                                       (case parse_centroids SimpleAtod SimpleAtoi d1 ts4 of
                                          (Some tok, d2) \<Rightarrow>
                                            (InvalidArgumentError (''Invalid centroid: '' @ tok), d2)
                                        | (None, d2) \<Rightarrow>
                                            (let d3 = (DoMerge d2)\<lparr>min_m := mn, max_m := mx\<rparr> in
                                             if centroids_m d3 = [] then (OkStatus, d3)
                                             else if cnt \<noteq> count_m d3
                                               then (InvalidArgumentError ''Invalid count value.'', d3)
                                             else (OkStatus, d3)))
                                 | _ \<Rightarrow> (InvalidArgumentError ''Invalid min, max, sum, or count.'',
                                         d1))
                            | _ \<Rightarrow> (InvalidArgumentError ''Invalid min, max, sum, or count.'',
                                    d1))))))"

text \<open>
  For the examples: what \<open>SimpleAtod\<close> and \<open>SimpleAtoi\<close> return on a token made of
  decimal digits only.
\<close>

definition digits_value :: "string \<Rightarrow> nat option" where
  "digits_value s =
     (if s = [] \<or> (\<exists>c \<in> set s. of_char c < (48::nat) \<or> (57::nat) < of_char c) then None
      else Some (foldl (\<lambda>acc c. 10 * acc + (of_char c - 48)) 0 s))"

definition atod_digits :: "string \<Rightarrow> real option" where
  "atod_digits s = map_option real (digits_value s)"

definition atoi_digits :: "string \<Rightarrow> int option" where
  "atoi_digits s = map_option int (digits_value s)"

subsection \<open>Printing\<close>

text \<open>
  \<open>ToString\<close> merges first when the digest holds more than one sample, so it returns
  the digest too. \<open>absl::StrCat\<close> on a double and the formats \<open>%0.17g\<close> and \<open>%d\<close> of
  \<open>absl::StrAppendFormat\<close> are library routines; \<open>ToString\<close> takes the three printers as
  parameters. \<open>centroids_.front()\<close> on an empty buffer is undefined behaviour, here
  \<open>None\<close>.
\<close>

definition ToString ::
  "(real \<Rightarrow> string) \<Rightarrow> (real \<Rightarrow> string) \<Rightarrow> (int \<Rightarrow> string) \<Rightarrow> TDigest
     \<Rightarrow> string option \<times> TDigest" where
  "ToString StrCat FormatG FormatD d =
     (let str = StrCat (compression_m d) in
      if count_m d \<le> 1 then
        (if count_m d = 0 then (Some (str @ ''/0/0/0/0''), d)
         else
           (case read_at (centroids_m d) 0 of
              None \<Rightarrow> (None, d)
            | Some c \<Rightarrow> (Some (str @ ''/'' @ FormatG (mean c)), d)))
      else
        (let d1 = DoMerge d;
             str1 = str @ ''/'' @ FormatG (min_m d1) @ ''/'' @ FormatG (max_m d1)
                        @ ''/'' @ FormatG (sum_m d1) @ ''/'' @ FormatD (count_m d1)
         in (Some (str1 @ concat (map (\<lambda>c. ''/'' @ FormatG (mean c) @ '':'' @ FormatD (count c))
                                     (centroids_m d1))),
             d1)))"

text \<open>
  The printers and the parsers agree on a digest: the text printed for its compression,
  for each of min, max, sum and the means, and for each count is read back as the same
  number and holds no \<open>/\<close> (nor a \<open>:\<close>, for a double printed with \<open>%0.17g\<close>), the
  text of the compression is not empty, and the literal \<open>0\<close> is read as zero.
\<close>

definition reads_back ::
  "(string \<Rightarrow> real option) \<Rightarrow> (string \<Rightarrow> int option)
     \<Rightarrow> (real \<Rightarrow> string) \<Rightarrow> (real \<Rightarrow> string) \<Rightarrow> (int \<Rightarrow> string) \<Rightarrow> TDigest \<Rightarrow> bool" where
  "reads_back SimpleAtod SimpleAtoi StrCat FormatG FormatD d \<longleftrightarrow>
     SimpleAtod (StrCat (compression_m d)) = Some (compression_m d)
     \<and> StrCat (compression_m d) \<noteq> [] \<and> CHR ''/'' \<notin> set (StrCat (compression_m d))
     \<and> SimpleAtod ''0'' = Some 0 \<and> SimpleAtoi ''0'' = Some 0
     \<and> (\<forall>x \<in> set ([min_m d, max_m d, sum_m d] @ map mean (centroids_m d)).
           SimpleAtod (FormatG x) = Some x
           \<and> CHR ''/'' \<notin> set (FormatG x) \<and> CHR '':'' \<notin> set (FormatG x))
     \<and> (\<forall>n \<in> set (count_m d # map count (centroids_m d)).
           SimpleAtoi (FormatD n) = Some n \<and> CHR ''/'' \<notin> set (FormatD n))"

text \<open>
  For the examples: what the three printers return on a non-negative whole number, its
  decimal digits.
\<close>

fun digits :: "nat \<Rightarrow> string" where
  "digits n =
     (if n < 10 then [''0123456789'' ! n]
      else digits (n div 10) @ [''0123456789'' ! (n mod 10)])"

definition format_whole :: "real \<Rightarrow> string" where
  "format_whole x = digits (nat \<lfloor>x\<rfloor>)"

definition format_count :: "int \<Rightarrow> string" where
  "format_count n = digits (nat n)"

subsection \<open>Invariants and auxiliary notions\<close>

text \<open>
  The loop of \<open>DoMerge\<close> seen on lists: \<open>lm\<close> is the centroid under
  \<open>last_merged\<close>, \<open>mc\<close> is \<open>merged_count\<close>, \<open>ql\<close> is \<open>q_limit\<close>, and the list is
  the part of the buffer from \<open>first_unmerged\<close> on. \<open>absorb\<close> is the update of
  \<open>*last_merged\<close> in the first branch, \<open>next_limit\<close> the new \<open>q_limit\<close> of the second.
  The lemma \<open>merge_loop_list\<close> relates the loop to this function.
\<close>

definition absorb :: "CentroidPod \<Rightarrow> CentroidPod \<Rightarrow> CentroidPod" where
  "absorb lm fu =
     \<lparr>mean = mean lm + ((mean fu - mean lm) * real_of_int (count fu))
                        / real_of_int (count lm + count fu),
      count = count lm + count fu\<rparr>"

definition next_limit :: "real \<Rightarrow> int \<Rightarrow> int \<Rightarrow> dbl" where
  "next_limit compression total_count mc =
     of_count total_count
       * CentroidToQuantile compression
           (QuantileToCentroid compression (real_of_int mc / real_of_int total_count) + 1)"

fun merge_list ::
  "real \<Rightarrow> int \<Rightarrow> CentroidPod \<Rightarrow> int \<Rightarrow> dbl \<Rightarrow> CentroidPod list \<Rightarrow> CentroidPod list" where
  "merge_list c T lm mc ql [] = [lm]"
| "merge_list c T lm mc ql (fu # rest) =
     (if of_count (count fu + mc) \<le> ql
      then merge_list c T (absorb lm fu) (mc + count fu) ql rest
      else lm # merge_list c T fu (mc + count fu) (next_limit c T mc) rest)"

text \<open>The place of a cumulative count on the scale of \<open>QuantileToCentroid\<close>.\<close>

definition k_scale :: "real \<Rightarrow> int \<Rightarrow> int \<Rightarrow> real" where
  "k_scale c T x = QuantileToCentroid c (real_of_int x / real_of_int T)"

text \<open>
  The invariants of a digest (section 3 of the spec), with \<open>pending\<close> the part of
  \<open>count_\<close> whose centroids are not in the buffer yet: \<open>Merge\<close> adds the whole count
  of the other digest first and its centroids one by one afterwards. Between two
  operations \<open>pending\<close> is zero.
\<close>

definition td_inv :: "TDigest \<Rightarrow> int \<Rightarrow> bool" where
  "td_inv d pending \<longleftrightarrow>
     0 \<le> compression_m d \<and> compression_m d \<le> kMaxCompression
     \<and> batch_size_m d = 4 * MaxCentroids (compression_m d)
     \<and> merged_m d + unmerged_m d = length (centroids_m d)
     \<and> (\<forall>c \<in> set (centroids_m d). 0 < count c)
     \<and> 0 \<le> pending
     \<and> count_m d = sum_list (map count (centroids_m d)) + pending
     \<and> (unmerged_m d = 0 \<longrightarrow>
           sorted (map mean (centroids_m d))
           \<and> (centroids_m d \<noteq> [] \<longrightarrow>
                 min_m d \<le> mean (hd (centroids_m d))
                 \<and> mean (last (centroids_m d)) \<le> max_m d)
           \<and> (0 < compression_m d \<longrightarrow>
                 length (centroids_m d) \<le> MaxCentroids (compression_m d)))"

text \<open>
  A program that builds a digest: the constructor, then calls of \<open>Add\<close> and \<open>Merge\<close>
  (the argument of \<open>Merge\<close> is built the same way) and the merges that \<open>Cdf\<close>,
  \<open>Quantile\<close> and \<open>ToString\<close> force. Any compression and any count may be passed.
\<close>

datatype build =
    New real
  | AddTo build real int
  | MergeWith build build
  | Forced build

fun digest_of :: "build \<Rightarrow> TDigest" where
  "digest_of (New compression) = Reset compression"
| "digest_of (AddTo b val cnt) = Add (digest_of b) val cnt"
| "digest_of (MergeWith b that) = Merge (digest_of b) (digest_of that)"
| "digest_of (Forced b) = DoMerge (digest_of b)"

definition INT64_MAX :: int where
  "INT64_MAX = 2 ^ 63 - 1"

text \<open>
  The programs that pass no negative compression and no negative count, and that keep
  \<open>count_\<close> within \<open>int64_t\<close>. On these no \<open>int64_t\<close> operation of the source
  overflows (every intermediate count is a sum of counts of centroids in the buffer,
  hence at most \<open>count_\<close>), so the unbounded integers of the model compute what the
  source computes.
\<close>

fun nonneg_calls :: "build \<Rightarrow> bool" where
  "nonneg_calls (New compression) = (0 \<le> compression)"
| "nonneg_calls (AddTo b val cnt) =
     (nonneg_calls b \<and> 0 \<le> cnt \<and> count_m (digest_of b) + cnt \<le> INT64_MAX)"
| "nonneg_calls (MergeWith b that) =
     (nonneg_calls b \<and> nonneg_calls that
      \<and> count_m (digest_of b) + count_m (digest_of that) \<le> INT64_MAX)"
| "nonneg_calls (Forced b) = nonneg_calls b"

text \<open>The sum that \<open>DoMerge\<close> accumulates over the centroids it leaves.\<close>

definition weighted_sum :: "CentroidPod list \<Rightarrow> real" where
  "weighted_sum cs = sum_list (map (\<lambda>c. mean c * real_of_int (count c)) cs)"

text \<open>
  What a digest keeps besides \<open>td_inv\<close>: \<open>min_\<close> and \<open>max_\<close> never pass the values
  \<open>Reset\<close> gives them; a digest without a sample has these values and sum zero; a digest
  of one sample has it as min, max and sum; and when nothing is unmerged, the buffer is
  what the merge loop makes of it again, and \<open>sum_\<close> is the sum that loop computes.
\<close>

definition settled :: "TDigest \<Rightarrow> bool" where
  "settled d \<longleftrightarrow>
     min_m d \<le> DBL_MAX \<and> - DBL_MAX \<le> max_m d
     \<and> (count_m d = 0 \<longrightarrow> min_m d = DBL_MAX \<and> max_m d = - DBL_MAX \<and> sum_m d = 0)
     \<and> (count_m d = 1 \<longrightarrow>
           (\<forall>c \<in> set (centroids_m d).
              min_m d = min DBL_MAX (mean c) \<and> max_m d = max (- DBL_MAX) (mean c)
              \<and> sum_m d = mean c))
     \<and> (unmerged_m d = 0 \<and> centroids_m d \<noteq> [] \<longrightarrow>
           merge_list (compression_m d) (count_m d) (hd (centroids_m d))
             (count (hd (centroids_m d))) (next_limit (compression_m d) (count_m d) 0)
             (tl (centroids_m d)) = centroids_m d
           \<and> sum_m d = weighted_sum (centroids_m d))"

subsection \<open>Example digests\<close>

text \<open>
  \<open>TDigest(1)\<close> after \<open>Add(1, 1)\<close> and \<open>Add(3, 1)\<close>: a merge leaves the single centroid
  (2, 2) with min 1 and max 3. \<open>TDigest(100)\<close> after the same calls: a merge keeps the
  two centroids.
\<close>

definition one_centroid_digest :: TDigest where
  "one_centroid_digest = Add (Add (Reset 1) 1 1) 3 1"

definition two_centroid_digest :: TDigest where
  "two_centroid_digest = Add (Add (Reset 100) 1 1) 3 1"

text \<open>The same as programs, and a program that passes negative counts.\<close>

definition two_centroid_build :: build where
  "two_centroid_build = AddTo (AddTo (New 100) 1 1) 3 1"


text \<open>
  A program whose merge leaves two centroids of the same mean with the larger count
  first: with compression 3 the centroid (0, 4) stays alone, (1, 3) and (1, 4) are
  merged into (1, 7), and (1, 5) follows.
\<close>

definition tied_build :: build where
  "tied_build = AddTo (AddTo (AddTo (AddTo (New 3) 0 4) 1 3) 1 4) 1 5"

section \<open>Properties of the connectivity state tracker\<close>

lemma shut_tracker_eq:
  "shut_tracker = \<lparr>name_m = ''t'', state_m = GRPC_CHANNEL_SHUTDOWN,
                    status_m = ''closed'', watchers_m = []\<rparr>"
  by (simp add: shut_tracker_def SetState_def AddWatcher_def NewTracker_def)

lemma reachable_shut_tracker: "reachable shut_tracker"
  unfolding shut_tracker_def by (intro reach_set reach_add reach_new)

lemma shutdown_no_watchers:
  "reachable t \<Longrightarrow> state_m t = GRPC_CHANNEL_SHUTDOWN \<Longrightarrow> watchers_m t = []"
proof (induction rule: reachable.induct)
  case (reach_new name st status)
  then show ?case by (simp add: NewTracker_def)
next
  case (reach_add t hint w)
  then show ?case by (simp add: AddWatcher_def Let_def split: if_splits)
next
  case (reach_remove t w)
  then show ?case by (simp add: RemoveWatcher_def)
next
  case (reach_set t st status reason)
  then show ?case by (simp add: SetState_def Let_def split: if_splits)
qed

lemma SetStates_no_watchers:
  "watchers_m t = [] \<Longrightarrow>
     snd (SetStates t calls) = [] \<and> watchers_m (fst (SetStates t calls)) = [] \<and>
     state_m (fst (SetStates t calls)) = (if calls = [] then state_m t else fst (last calls))"
proof (induction calls arbitrary: t)
  case Nil
  then show ?case by simp
next
  case (Cons c calls)
  obtain st status reason where c: "c = (st, status, reason)" by (cases c)
  let ?t1 = "fst (SetState t st status reason)"
  have w1: "watchers_m ?t1 = []" and n1: "snd (SetState t st status reason) = []"
    and s1: "state_m ?t1 = st"
    using Cons.prems by (auto simp: SetState_def Let_def)
  from Cons.IH [OF w1] show ?case
    using n1 s1 by (simp add: c split_beta Let_def)
qed

text \<open>
  C5, as the code has it. \<open>SetState\<close> has no guard on the current state, so a tracker
  in SHUTDOWN moves to whatever state is requested next. What does hold: a reachable
  tracker in SHUTDOWN has no watcher, hence no sequence of \<open>SetState\<close> calls issues a
  notification or attaches a watcher, and the state after the calls is the one the last
  call asked for (SHUTDOWN when there was no call).
\<close>

theorem SetState_after_shutdown:
  assumes "reachable t" and "state t = GRPC_CHANNEL_SHUTDOWN"
  shows "snd (SetStates t calls) = []
         \<and> watchers_m (fst (SetStates t calls)) = []
         \<and> state (fst (SetStates t calls)) =
             (if calls = [] then GRPC_CHANNEL_SHUTDOWN else fst (last calls))"
proof -
  have "watchers_m t = []"
    using assms shutdown_no_watchers by (simp add: state_def)
  from SetStates_no_watchers [OF this, of calls] show ?thesis
    using assms(2) by (simp add: state_def)
qed

theorem SetState_after_shutdown_witness:
  "reachable shut_tracker \<and> state shut_tracker = GRPC_CHANNEL_SHUTDOWN
   \<and> snd (SetStates shut_tracker
            [(GRPC_CHANNEL_READY, '''', ''up''), (GRPC_CHANNEL_SHUTDOWN, '''', ''down'')]) = []
   \<and> state (fst (SetStates shut_tracker
            [(GRPC_CHANNEL_READY, '''', ''up''), (GRPC_CHANNEL_SHUTDOWN, '''', ''down'')]))
       = GRPC_CHANNEL_SHUTDOWN"
proof -
  have r: "reachable shut_tracker" by (rule reachable_shut_tracker)
  have s: "state shut_tracker = GRPC_CHANNEL_SHUTDOWN"
    by (simp add: shut_tracker_eq state_def)
  show ?thesis
    using r s SetState_after_shutdown [OF r s,
      of "[(GRPC_CHANNEL_READY, '''', ''up''), (GRPC_CHANNEL_SHUTDOWN, '''', ''down'')]"]
    by simp
qed

text \<open>
  C5 as stated fails: after SHUTDOWN, \<open>SetState(READY)\<close> stores READY and \<open>state()\<close>
  returns it.
\<close>

theorem shutdown_not_terminal:
  "reachable shut_tracker \<and> state shut_tracker = GRPC_CHANNEL_SHUTDOWN
   \<and> state (fst (SetStates shut_tracker [(GRPC_CHANNEL_READY, '''', ''up'')]))
       = GRPC_CHANNEL_READY"
  using reachable_shut_tracker
  by (simp add: shut_tracker_eq state_def SetState_def)

text \<open>
  C6, as the code has it. With the tracker in SHUTDOWN, \<open>AddWatcher\<close> never adds the
  watcher; it notifies it once with (SHUTDOWN, status) when the hint differs from
  SHUTDOWN, and not at all when the hint is SHUTDOWN itself.
\<close>

theorem AddWatcher_in_shutdown:
  assumes "state t = GRPC_CHANNEL_SHUTDOWN"
  shows "AddWatcher t hint w =
           (t, if hint \<noteq> GRPC_CHANNEL_SHUTDOWN
               then [(w, GRPC_CHANNEL_SHUTDOWN, status_m t)] else [])"
  using assms by (simp add: AddWatcher_def state_def)

theorem AddWatcher_in_shutdown_witness:
  "state shut_tracker = GRPC_CHANNEL_SHUTDOWN
   \<and> AddWatcher shut_tracker GRPC_CHANNEL_IDLE 5 =
       (shut_tracker, [(5, GRPC_CHANNEL_SHUTDOWN, ''closed'')])"
proof -
  have s: "state shut_tracker = GRPC_CHANNEL_SHUTDOWN"
    by (simp add: shut_tracker_eq state_def)
  show ?thesis
    using s AddWatcher_in_shutdown [OF s, of GRPC_CHANNEL_IDLE 5]
    by (simp add: shut_tracker_eq)
qed

text \<open>
  C6 as stated fails for the hint SHUTDOWN: the watcher is neither notified nor added.
\<close>

theorem AddWatcher_shutdown_hint_silent:
  "state shut_tracker = GRPC_CHANNEL_SHUTDOWN
   \<and> snd (AddWatcher shut_tracker GRPC_CHANNEL_SHUTDOWN 5) = []"
  by (simp add: shut_tracker_eq state_def AddWatcher_def)

section \<open>Properties of the t-digest\<close>

subsection \<open>Arithmetic on doubles\<close>

lemma dbl_arith [simp]:
  "Val x + Val y = Val (x + y)"
  "Val x - Val y = Val (x - y)"
  "Val x * Val y = Val (x * y)"
  "Val x / Val y = (if y = 0 then NaN else Val (x / y))"
  "NaN + a = NaN" "a + NaN = NaN" "NaN - a = NaN" "a - NaN = NaN"
  "NaN * a = NaN" "a * NaN = NaN" "NaN / a = NaN" "a / NaN = NaN"
  by (auto simp: plus_dbl_def minus_dbl_def times_dbl_def divide_dbl_def split: dbl.splits)

lemma dbl_compare [simp]:
  "(Val x < Val y) = (x < y)"
  "(Val x \<le> Val y) = (x \<le> y)"
  "\<not> NaN < a" "\<not> a < NaN" "\<not> NaN \<le> a" "\<not> a \<le> NaN"
  "dbl_eq (Val x) (Val y) = (x = y)" "\<not> dbl_eq NaN a" "\<not> dbl_eq a NaN"
  by (auto simp: less_dbl_def less_eq_dbl_def dbl_eq_def split: dbl.splits)

subsection \<open>The example digests\<close>

lemma one_centroid_digest_eq:
  "one_centroid_digest =
     \<lparr>compression_m = 1, batch_size_m = 8,
      centroids_m = [\<lparr>mean = 1, count = 1\<rparr>, \<lparr>mean = 3, count = 1\<rparr>],
      merged_m = 0, unmerged_m = 2, min_m = 1, max_m = 3, sum_m = 4, count_m = 2\<rparr>"
  by (simp add: one_centroid_digest_def Add_def Reset_def AddUnmergedCentroid_def
      UpdateStats_def BoundedCompression_def MaxCentroids_def kMaxCompression_def
      DBL_MAX_def Let_def)

lemma one_centroid_digest_merged:
  "DoMerge one_centroid_digest =
     \<lparr>compression_m = 1, batch_size_m = 8, centroids_m = [\<lparr>mean = 2, count = 2\<rparr>],
      merged_m = 1, unmerged_m = 0, min_m = 1, max_m = 3, sum_m = 4, count_m = 2\<rparr>"
  by (simp add: one_centroid_digest_eq DoMerge_def sort_centroids_def Let_def
      CentroidToQuantile_def of_count_def merge_step_def numeral_2_eq_2)

lemma two_centroid_digest_eq:
  "two_centroid_digest =
     \<lparr>compression_m = 100, batch_size_m = 800,
      centroids_m = [\<lparr>mean = 1, count = 1\<rparr>, \<lparr>mean = 3, count = 1\<rparr>],
      merged_m = 0, unmerged_m = 2, min_m = 1, max_m = 3, sum_m = 4, count_m = 2\<rparr>"
  by (simp add: two_centroid_digest_def Add_def Reset_def AddUnmergedCentroid_def
      UpdateStats_def BoundedCompression_def MaxCentroids_def kMaxCompression_def
      DBL_MAX_def Let_def)

lemma sin_small: "sin (pi / 100 - pi / 2) < 0"
proof -
  have "sin (pi / 100 - pi / 2)
          = sin (pi / 100) * cos (pi / 2) - cos (pi / 100) * sin (pi / 2)"
    by (rule sin_diff)
  moreover have "0 < cos (pi / 100)"
    by (rule cos_gt_zero_pi) (use pi_gt_zero in auto)
  ultimately show ?thesis by simp
qed

lemma first_limit_100: "\<not> of_count 2 \<le> of_count 2 * CentroidToQuantile 100 1"
proof -
  have "(1::real) * pi / 100 - pi / 2 = pi / 100 - pi / 2" by simp
  then have "CentroidToQuantile 100 1 = Val ((sin (pi / 100 - pi / 2) + 1) / 2)"
    unfolding CentroidToQuantile_def by simp
  then show ?thesis using sin_small by (simp add: of_count_def)
qed

lemma two_centroid_digest_merged:
  "DoMerge two_centroid_digest =
     \<lparr>compression_m = 100, batch_size_m = 800,
      centroids_m = [\<lparr>mean = 1, count = 1\<rparr>, \<lparr>mean = 3, count = 1\<rparr>],
      merged_m = 2, unmerged_m = 0, min_m = 1, max_m = 3, sum_m = 4, count_m = 2\<rparr>"
  by (simp add: two_centroid_digest_eq DoMerge_def sort_centroids_def Let_def merge_step_def
      first_limit_100 numeral_2_eq_2)

subsection \<open>The single-centroid branch of Cdf\<close>

lemma Cdf_single_centroid:
  assumes "merged_m (DoMerge d) = 1"
    and "Val (min_m (DoMerge d)) \<le> v" and "v < Val (max_m (DoMerge d))"
  shows "fst (Cdf d v) = Some ((v - Val (min_m (DoMerge d)))
                               / Val (min_m (DoMerge d) - max_m (DoMerge d)))"
  using assms by (cases v) (auto simp: Cdf_def Let_def)

text \<open>
  C3, at a concrete digest. \<open>TDigest(1)\<close> after \<open>Add(1, 1)\<close> and \<open>Add(3, 1)\<close> holds one
  centroid after the merge, with min 1 and max 3. The linear interpolation between
  (1, 0) and (3, 1) at 2 is 1/2; \<open>Cdf(2)\<close> divides by \<open>min_ - max_\<close> and returns -1/2.
\<close>

theorem Cdf_single_centroid_sign:
  "merged_m (snd (Cdf one_centroid_digest (Val 2))) = 1
   \<and> min_m (snd (Cdf one_centroid_digest (Val 2))) = 1
   \<and> max_m (snd (Cdf one_centroid_digest (Val 2))) = 3
   \<and> fst (Cdf one_centroid_digest (Val 2)) = Some (Val (- 1 / 2))
   \<and> fst (Cdf one_centroid_digest (Val 2)) \<noteq> Some (Val ((2 - 1) / (3 - 1)))"
  by (simp add: Cdf_def one_centroid_digest_merged Let_def)

subsection \<open>Index safety of Cdf\<close>

text \<open>
  C10, at a concrete digest. \<open>TDigest(100)\<close> after \<open>Add(1, 1)\<close> and \<open>Add(3, 1)\<close> holds
  two centroids sorted by mean after the merge. With \<open>val\<close> NaN every comparison of
  \<open>Cdf\<close> is false, no early branch returns, and the scan reaches \<open>i = 1\<close>, where
  \<open>centroids_[i + 1]\<close> is a read at index 2 of a buffer of size 2.
\<close>

theorem Cdf_NaN_reads_past_end:
  "length (centroids_m (snd (Cdf two_centroid_digest NaN))) = 2
   \<and> sorted (map mean (centroids_m (snd (Cdf two_centroid_digest NaN))))
   \<and> unmerged_m (snd (Cdf two_centroid_digest NaN)) = 0
   \<and> fst (Cdf two_centroid_digest NaN) = None"
  by (simp add: Cdf_def two_centroid_digest_merged Let_def read_at_def read_back_def
      numeral_2_eq_2)

text \<open>
  For an argument that is not NaN the early branches of \<open>Cdf\<close> leave
  \<open>centroids_[0].mean \<le> val < centroids_.back().mean\<close>; the scan then keeps
  \<open>centroids_[i].mean \<le> val\<close>, so it never stands on the last index, and every read
  is in range.
\<close>

declare cdf_collapse.simps [simp del] cdf_scan.simps [simp del]

lemma cdf_collapse_in_bounds:
  assumes "sorted (map mean cs)" and "cs \<noteq> []" and "v < mean (last cs)"
    and "i < length cs" and "mean (cs ! i) = v"
  shows "cdf_collapse cs (Val v) i accum \<noteq> None"
  using assms(4,5)
proof (induction "length cs - i" arbitrary: i accum)
  case 0
  then show ?case by simp
next
  case (Suc n)
  have "i \<noteq> length cs - 1"
    using Suc.prems(2) assms(2,3) by (auto simp: last_conv_nth)
  then have lt: "i + 1 < length cs" using Suc.prems(1) by simp
  show ?case
  proof (cases "mean (cs ! (i + 1)) = v")
    case True
    have "cdf_collapse cs (Val v) (i + 1)
            (accum + real_of_int (count (cs ! i) + count (cs ! (i + 1)))) \<noteq> None"
      using Suc.hyps(2) lt True by (intro Suc.hyps(1)) simp_all
    then show ?thesis using lt True by (subst cdf_collapse.simps) simp
  next
    case False
    then show ?thesis using lt by (subst cdf_collapse.simps) simp
  qed
qed

lemma cdf_scan_in_bounds:
  assumes "sorted (map mean cs)" and "cs \<noteq> []" and "v < mean (last cs)"
    and "i < length cs" and "mean (cs ! i) \<le> v"
  shows "cdf_scan cs cnt (Val v) i accum \<noteq> None"
  using assms(4,5)
proof (induction "length cs - i" arbitrary: i accum)
  case 0
  then show ?case by simp
next
  case (Suc n)
  have "i \<noteq> length cs - 1"
    using Suc.prems(2) assms(2,3) by (auto simp: last_conv_nth)
  then have lt: "i + 1 < length cs" using Suc.prems(1) by simp
  show ?case
  proof (cases "mean (cs ! i) = v")
    case True
    then obtain a where "cdf_collapse cs (Val v) i accum = Some a"
      using cdf_collapse_in_bounds [OF assms(1-3) Suc.prems(1), of accum] by auto
    then show ?thesis using True Suc.prems(1) by (subst cdf_scan.simps) simp
  next
    case ne: False
    show ?thesis
    proof (cases "v < mean (cs ! (i + 1))")
      case True
      then show ?thesis
        using ne lt Suc.prems by (subst cdf_scan.simps) (simp add: read_at_def Let_def)
    next
      case False
      then have le: "mean (cs ! (i + 1)) \<le> v" by simp
      have "cdf_scan cs cnt (Val v) (i + 1)
              (accum + real_of_int (count (cs ! i) + count (cs ! (i + 1))) / 2) \<noteq> None"
        using Suc.hyps(2) lt le by (intro Suc.hyps(1)) simp_all
      then show ?thesis
        using ne lt False Suc.prems by (subst cdf_scan.simps) (simp add: read_at_def)
    qed
  qed
qed

lemma Cdf_in_bounds_real:
  assumes "unmerged_m d = 0" and "merged_m d = length (centroids_m d)"
    and "2 \<le> length (centroids_m d)" and "sorted (map mean (centroids_m d))"
  shows "fst (Cdf d (Val v)) \<noteq> None"
proof -
  let ?cs = "centroids_m d"
  have dm: "DoMerge d = d" using assms(1) by (simp add: DoMerge_def)
  have "0 < length ?cs" using assms(3) by linarith
  then have ne: "?cs \<noteq> []" by simp
  have r0: "read_at ?cs 0 = Some (?cs ! 0)" using ne by (simp add: read_at_def)
  have rb: "read_back ?cs = Some (last ?cs)" using ne by (simp add: read_back_def)
  have scan: "cdf_scan ?cs (count_m d) (Val v) 0 (real_of_int (count (?cs ! 0)) / 2) \<noteq> None"
    if "\<not> v < mean (?cs ! 0)" and "\<not> mean (last ?cs) \<le> v"
    using that ne by (intro cdf_scan_in_bounds [OF assms(4) ne]) simp_all
  show ?thesis
    using scan by (auto simp: Cdf_def dm Let_def r0 rb)
qed

subsection \<open>Parsing a declared-empty digest\<close>

lemma StrSplit_token:
  "delim \<notin> set t \<Longrightarrow> StrSplit (t @ delim # rest) delim = t # StrSplit rest delim"
  by (induction t) auto

lemma StrSplit_last: "delim \<notin> set t \<Longrightarrow> StrSplit t delim = [t]"
  by (induction t) auto

lemma Reset_fields:
  "count_m (Reset c) = 0" "compression_m (Reset c) = min 1000000 c"
  "centroids_m (Reset c) = []"
  by (simp_all add: Reset_def BoundedCompression_def kMaxCompression_def Let_def)

text \<open>
  C7, as the code has it. The input is five tokens joined by \<open>/\<close>; the first four are
  read as doubles (\<open>c \<ge> 0\<close>, min, max, sum) and the fifth as an integer (count).
  \<open>FromString\<close> returns the error "Empty t-Digest with non-zero min, max, sum, or
  count." exactly when one of the four is not zero, and otherwise OK; either way the
  digest is the one \<open>Reset(c)\<close> leaves: no sample, and compression \<open>min(c, 10^6)\<close>.
\<close>

theorem FromString_declared_empty:
  assumes "\<forall>t \<in> set [t0, t1, t2, t3, t4]. CHR ''/'' \<notin> set t"
    and "t0 \<noteq> []"
    and "SimpleAtod t0 = Some c" and "0 \<le> c"
    and "SimpleAtod t1 = Some mn" and "SimpleAtod t2 = Some mx"
    and "SimpleAtod t3 = Some sm" and "SimpleAtoi t4 = Some cnt"
  shows "FromString SimpleAtod SimpleAtoi d
           (t0 @ CHR ''/'' # t1 @ CHR ''/'' # t2 @ CHR ''/'' # t3 @ CHR ''/'' # t4)
         = (if mn \<noteq> 0 \<or> mx \<noteq> 0 \<or> sm \<noteq> 0 \<or> cnt \<noteq> 0
            then InvalidArgumentError ''Empty t-Digest with non-zero min, max, sum, or count.''
            else OkStatus, Reset c)
         \<and> count_m (Reset c) = 0 \<and> centroids_m (Reset c) = []
         \<and> compression_m (Reset c) = min 1000000 c"
proof -
  have "StrSplit (t0 @ CHR ''/'' # t1 @ CHR ''/'' # t2 @ CHR ''/'' # t3 @ CHR ''/'' # t4)
          CHR ''/'' = [t0, t1, t2, t3, t4]"
    using assms(1) by (simp add: StrSplit_token StrSplit_last)
  then show ?thesis
    using assms(2-) by (auto simp: FromString_def Reset_fields)
qed

theorem FromString_declared_empty_witness:
  "FromString atod_digits atoi_digits (Reset 5) ''100/0/0/0/0'' = (OkStatus, Reset 100)
   \<and> compression_m (Reset 100) = 100
   \<and> fst (FromString atod_digits atoi_digits (Reset 5) ''100/0/7/0/0'')
       = InvalidArgumentError ''Empty t-Digest with non-zero min, max, sum, or count.''"
  using FromString_declared_empty [of "''100''" "''0''" "''0''" "''0''" "''0''"
      atod_digits 100 0 0 0 atoi_digits 0 "Reset 5"]
    FromString_declared_empty [of "''100''" "''0''" "''7''" "''0''" "''0''"
      atod_digits 100 0 7 0 atoi_digits 0 "Reset 5"]
  by (simp add: atod_digits_def atoi_digits_def digits_value_def)

text \<open>
  C7 as stated fails on the compression: the input \<open>2000000/0/0/0/0\<close> is accepted and
  the digest has compression 1000000, not 2000000.
\<close>

theorem FromString_bounds_compression:
  "fst (FromString atod_digits atoi_digits (Reset 5) ''2000000/0/0/0/0'') = OkStatus
   \<and> count_m (snd (FromString atod_digits atoi_digits (Reset 5) ''2000000/0/0/0/0'')) = 0
   \<and> compression_m (snd (FromString atod_digits atoi_digits (Reset 5) ''2000000/0/0/0/0''))
       = 1000000"
  by (simp add: FromString_def atod_digits_def atoi_digits_def digits_value_def Reset_fields)

subsection \<open>Parsing a digest whose header contradicts its centroids\<close>



subsection \<open>The merge loop on lists\<close>

lemma merge_loop_list:
  assumes "last_merged v < first_unmerged v"
    and "first_unmerged v + n = length (buf v)"
    and "mv_merged v = last_merged v + 1"
  shows "mv_merged (merge_loop c T n v) = last_merged (merge_loop c T n v) + 1
         \<and> last_merged (merge_loop c T n v) < length (buf (merge_loop c T n v))
         \<and> take (mv_merged (merge_loop c T n v)) (buf (merge_loop c T n v))
             = take (last_merged v) (buf v)
               @ merge_list c T (buf v ! last_merged v) (merged_count v) (q_limit v)
                   (drop (first_unmerged v) (buf v))"
  using assms
proof (induction n arbitrary: v)
  case 0
  then show ?case by (simp add: take_Suc_conv_app_nth)
next
  case (Suc n)
  let ?lm = "buf v ! last_merged v" and ?fu = "buf v ! first_unmerged v"
  let ?v' = "merge_step c T v"
  have fu_lt: "first_unmerged v < length (buf v)" using Suc.prems by simp
  have lm_lt: "last_merged v < length (buf v)" using Suc.prems by simp
  have dr: "drop (first_unmerged v) (buf v) = ?fu # drop (Suc (first_unmerged v)) (buf v)"
    using fu_lt by (simp add: Cons_nth_drop_Suc)
  have step: "merge_loop c T (Suc n) v = merge_loop c T n ?v'" by simp
  show ?case
  proof (cases "of_count (count ?fu + merged_count v) \<le> q_limit v")
    case True
    have v': "?v' = v\<lparr>buf := (buf v)[last_merged v := absorb ?lm ?fu],
                 merged_count := merged_count v + count ?fu,
                 first_unmerged := first_unmerged v + 1\<rparr>"
      using True by (simp add: merge_step_def Let_def absorb_def)
    have p: "last_merged ?v' < first_unmerged ?v'"
      "first_unmerged ?v' + n = length (buf ?v')" "mv_merged ?v' = last_merged ?v' + 1"
      using Suc.prems by (simp_all add: v')
    have e: "take (last_merged ?v') (buf ?v') = take (last_merged v) (buf v)"
      "buf ?v' ! last_merged ?v' = absorb ?lm ?fu"
      "merged_count ?v' = merged_count v + count ?fu"
      "q_limit ?v' = q_limit v"
      "drop (first_unmerged ?v') (buf ?v') = drop (Suc (first_unmerged v)) (buf v)"
      using Suc.prems lm_lt by (simp_all add: v')
    have ml: "merge_list c T ?lm (merged_count v) (q_limit v) (drop (first_unmerged v) (buf v))
              = merge_list c T (absorb ?lm ?fu) (merged_count v + count ?fu) (q_limit v)
                  (drop (Suc (first_unmerged v)) (buf v))"
      using True by (simp add: dr)
    show ?thesis unfolding step ml using Suc.IH [OF p] unfolding e .
  next
    case False
    have v': "?v' = v\<lparr>q_limit := next_limit c T (merged_count v),
              merged_count := merged_count v + count ?fu,
              mv_sum := mv_sum v + mean ?lm * real_of_int (count ?lm),
              mv_merged := mv_merged v + 1,
              last_merged := last_merged v + 1,
              buf := (buf v)[last_merged v + 1 := ?fu],
              first_unmerged := first_unmerged v + 1\<rparr>"
      using False by (simp add: merge_step_def Let_def next_limit_def)
    have p: "last_merged ?v' < first_unmerged ?v'"
      "first_unmerged ?v' + n = length (buf ?v')" "mv_merged ?v' = last_merged ?v' + 1"
      using Suc.prems by (simp_all add: v')
    have e: "take (last_merged ?v') (buf ?v') = take (last_merged v) (buf v) @ [?lm]"
      "buf ?v' ! last_merged ?v' = ?fu"
      "merged_count ?v' = merged_count v + count ?fu"
      "q_limit ?v' = next_limit c T (merged_count v)"
      "drop (first_unmerged ?v') (buf ?v') = drop (Suc (first_unmerged v)) (buf v)"
      using Suc.prems lm_lt fu_lt by (simp_all add: v' take_Suc_conv_app_nth)
    have ml: "merge_list c T ?lm (merged_count v) (q_limit v) (drop (first_unmerged v) (buf v))
              = ?lm # merge_list c T ?fu (merged_count v + count ?fu)
                  (next_limit c T (merged_count v)) (drop (Suc (first_unmerged v)) (buf v))"
      using False by (simp add: dr)
    show ?thesis unfolding step ml using Suc.IH [OF p] unfolding e by auto
  qed
qed

lemma merge_list_nonempty: "merge_list c T lm mc ql rest \<noteq> []"
  by (induction rest arbitrary: lm mc ql) auto

lemma absorb_count: "count (absorb lm fu) = count lm + count fu"
  by (simp add: absorb_def)

lemma absorb_mean:
  assumes "0 < count lm" and "0 < count fu" and "mean lm \<le> mean fu"
  shows "mean lm \<le> mean (absorb lm fu)" and "mean (absorb lm fu) \<le> mean fu"
proof -
  let ?n = "real_of_int (count lm)" and ?x = "real_of_int (count fu)"
  have pos: "0 < ?n" "0 < ?x" using assms by simp_all
  have m: "mean (absorb lm fu) = mean lm + (mean fu - mean lm) * ?x / (?n + ?x)"
    by (simp add: absorb_def)
  have "0 \<le> (mean fu - mean lm) * ?x / (?n + ?x)"
    using pos assms(3) by simp
  then show "mean lm \<le> mean (absorb lm fu)" using m by simp
  have "?x / (?n + ?x) \<le> 1" using pos by simp
  then have "(mean fu - mean lm) * (?x / (?n + ?x)) \<le> (mean fu - mean lm) * 1"
    using assms(3) by (intro mult_left_mono) simp_all
  then show "mean (absorb lm fu) \<le> mean fu" using m by simp
qed

lemma merge_list_counts_pos:
  "0 < count lm \<Longrightarrow> \<forall>x \<in> set rest. 0 < count x \<Longrightarrow>
     \<forall>x \<in> set (merge_list c T lm mc ql rest). 0 < count x"
proof (induction rest arbitrary: lm mc ql)
  case Nil
  then show ?case by simp
next
  case (Cons fu rest)
  have fu: "0 < count fu" and rest: "\<forall>x \<in> set rest. 0 < count x"
    using Cons.prems(2) by simp_all
  show ?case
  proof (cases "of_count (count fu + mc) \<le> ql")
    case True
    have "0 < count (absorb lm fu)" using Cons.prems(1) fu by (simp add: absorb_count)
    from Cons.IH [OF this rest] show ?thesis using True by simp
  next
    case False
    from Cons.IH [OF fu rest] show ?thesis using False Cons.prems(1) by simp
  qed
qed

lemma merge_list_count_sum:
  "sum_list (map count (merge_list c T lm mc ql rest)) = count lm + sum_list (map count rest)"
  by (induction rest arbitrary: lm mc ql) (auto simp: absorb_count)

lemma merge_list_sorted:
  assumes "sorted (map mean rest)" and "\<forall>x \<in> set rest. mean lm \<le> mean x"
    and "0 < count lm" and "\<forall>x \<in> set rest. 0 < count x"
  shows "sorted (map mean (merge_list c T lm mc ql rest))
         \<and> (\<forall>y \<in> set (merge_list c T lm mc ql rest). mean lm \<le> mean y)"
  using assms
proof (induction rest arbitrary: lm mc ql)
  case Nil
  then show ?case by simp
next
  case (Cons fu rest)
  have fu: "mean lm \<le> mean fu" "0 < count fu" using Cons.prems by simp_all
  have rest: "sorted (map mean rest)" "\<forall>x \<in> set rest. mean fu \<le> mean x"
    "\<forall>x \<in> set rest. 0 < count x"
    using Cons.prems by simp_all
  show ?case
  proof (cases "of_count (count fu + mc) \<le> ql")
    case True
    let ?lm' = "absorb lm fu"
    have b: "mean lm \<le> mean ?lm'" "mean ?lm' \<le> mean fu"
      using absorb_mean [OF Cons.prems(3) fu(2) fu(1)] by simp_all
    have "\<forall>x \<in> set rest. mean ?lm' \<le> mean x" using b(2) rest(2) by force
    moreover have "0 < count ?lm'" using Cons.prems(3) fu(2) by (simp add: absorb_count)
    ultimately have "sorted (map mean (merge_list c T ?lm' (mc + count fu) ql rest))
        \<and> (\<forall>y \<in> set (merge_list c T ?lm' (mc + count fu) ql rest). mean ?lm' \<le> mean y)"
      using Cons.IH rest by blast
    then show ?thesis using True b(1) by (simp add: order_trans [OF b(1)])
  next
    case False
    have "sorted (map mean (merge_list c T fu (mc + count fu) (next_limit c T mc) rest))
        \<and> (\<forall>y \<in> set (merge_list c T fu (mc + count fu) (next_limit c T mc) rest).
              mean fu \<le> mean y)"
      using Cons.IH rest fu(2) by blast
    then show ?thesis using False fu(1) by (simp add: order_trans [OF fu(1)])
  qed
qed

subsection \<open>The scale function\<close>

lemma quantile_arg:
  assumes "0 < T" and "0 \<le> x" and "x \<le> T"
  shows "- 1 \<le> 2 * (real_of_int x / real_of_int T) - 1"
    and "2 * (real_of_int x / real_of_int T) - 1 \<le> 1"
proof -
  have "0 \<le> real_of_int x / real_of_int T" using assms by simp
  then show "- 1 \<le> 2 * (real_of_int x / real_of_int T) - 1" by simp
  have "real_of_int x / real_of_int T \<le> 1" using assms by simp
  then show "2 * (real_of_int x / real_of_int T) - 1 \<le> 1" by simp
qed

lemma k_scale_zero: "k_scale c T 0 = 0"
  by (simp add: k_scale_def QuantileToCentroid_def)

lemma k_scale_mono:
  assumes "0 < c" and "0 < T" and "0 \<le> x" and "x \<le> y" and "y \<le> T"
  shows "k_scale c T x \<le> k_scale c T y"
proof -
  have "real_of_int x / real_of_int T \<le> real_of_int y / real_of_int T"
    using assms by (simp add: divide_right_mono)
  then have "arcsin (2 * (real_of_int x / real_of_int T) - 1)
             \<le> arcsin (2 * (real_of_int y / real_of_int T) - 1)"
    using quantile_arg [of T x] quantile_arg [of T y] assms
    by (intro arcsin_le_arcsin) simp_all
  then have "(arcsin (2 * (real_of_int x / real_of_int T) - 1) + pi / 2) / pi
             \<le> (arcsin (2 * (real_of_int y / real_of_int T) - 1) + pi / 2) / pi"
    by (simp add: divide_right_mono)
  then have "c * ((arcsin (2 * (real_of_int x / real_of_int T) - 1) + pi / 2) / pi)
             \<le> c * ((arcsin (2 * (real_of_int y / real_of_int T) - 1) + pi / 2) / pi)"
    using assms(1) by (intro mult_left_mono) simp_all
  then show ?thesis by (simp add: k_scale_def QuantileToCentroid_def)
qed

lemma k_scale_nonneg:
  assumes "0 < c" and "0 < T" and "0 \<le> x" and "x \<le> T"
  shows "0 \<le> k_scale c T x"
  using k_scale_mono [OF assms(1,2), of 0 x] assms by (simp add: k_scale_zero)

lemma k_scale_le:
  assumes "0 < c" and "0 < T" and "0 \<le> x" and "x \<le> T"
  shows "k_scale c T x \<le> c"
proof -
  have "arcsin (2 * (real_of_int x / real_of_int T) - 1) \<le> pi / 2"
    using quantile_arg [OF assms(2-4)] by (intro arcsin_ubound) simp_all
  then have "(arcsin (2 * (real_of_int x / real_of_int T) - 1) + pi / 2) / pi \<le> 1"
    by simp
  then have "c * ((arcsin (2 * (real_of_int x / real_of_int T) - 1) + pi / 2) / pi) \<le> c * 1"
    using assms(1) by (intro mult_left_mono) simp_all
  then show ?thesis by (simp add: k_scale_def QuantileToCentroid_def)
qed

lemma k_scale_less:
  assumes "0 < c" and "0 < T" and "0 \<le> x" and "x < T"
  shows "k_scale c T x < c"
proof -
  have "real_of_int x / real_of_int T < 1" using assms by simp
  then have "2 * (real_of_int x / real_of_int T) - 1 < 1" by simp
  then have "arcsin (2 * (real_of_int x / real_of_int T) - 1) < arcsin 1"
    using quantile_arg(1) [of T x] assms by (intro arcsin_less_arcsin) simp_all
  then have "(arcsin (2 * (real_of_int x / real_of_int T) - 1) + pi / 2) / pi < 1"
    by simp
  then have "c * ((arcsin (2 * (real_of_int x / real_of_int T) - 1) + pi / 2) / pi) < c * 1"
    using assms(1) by (intro mult_strict_left_mono) simp_all
  then show ?thesis by (simp add: k_scale_def QuantileToCentroid_def)
qed

lemma half_shift: "(s + 1) / 2 < (r::real) \<Longrightarrow> s < 2 * r - 1"
  by simp

text \<open>Beyond the limit computed at \<open>a\<close>, the k-scale has advanced by more than one.\<close>

lemma beyond_limit:
  assumes c: "0 < c" and T: "0 < T" and a: "0 \<le> a" "a \<le> T" and y: "0 \<le> y" "y \<le> T"
    and over: "\<not> of_count y \<le> next_limit c T a"
  shows "k_scale c T a + 1 < k_scale c T y"
proof -
  let ?k = "k_scale c T a + 1"
  have k0: "0 \<le> k_scale c T a" using k_scale_nonneg [OF c T a] .
  have lim: "next_limit c T a
             = Val (real_of_int T * ((sin (min ?k c * pi / c - pi / 2) + 1) / 2))"
    using c by (simp add: next_limit_def CentroidToQuantile_def k_scale_def of_count_def)
  have gt: "real_of_int T * ((sin (min ?k c * pi / c - pi / 2) + 1) / 2) < real_of_int y"
    using over by (simp add: lim of_count_def)
  show ?thesis
  proof (cases "c \<le> ?k")
    case True
    then have m: "min ?k c = c" by simp
    have "c * pi / c - pi / 2 = pi / 2" using c by simp
    then have "sin (min ?k c * pi / c - pi / 2) = 1" by (simp only: m sin_pi_half)
    then have "real_of_int T * ((1 + 1) / 2) < real_of_int y" using gt by (simp only:)
    then have "real_of_int T < real_of_int y" by simp
    then show ?thesis using y by simp
  next
    case False
    let ?th = "?k * pi / c - pi / 2"
    have kc: "?k < c" using False by simp
    have m: "min ?k c = ?k" using kc by simp
    have "0 \<le> ?k * pi / c" using k0 c by simp
    then have th_lo: "- (pi / 2) \<le> ?th" by linarith
    have "?k * pi \<le> c * pi" using kc by (intro mult_right_mono) simp_all
    then have "?k * pi / c \<le> pi" using c by (simp add: field_simps)
    then have th_hi: "?th \<le> pi / 2" by linarith
    have "real_of_int T * ((sin ?th + 1) / 2) < real_of_int y" using gt by (simp only: m)
    then have "(sin ?th + 1) / 2 < real_of_int y / real_of_int T"
      using T by (simp add: field_simps)
    then have s: "sin ?th < 2 * (real_of_int y / real_of_int T) - 1" by (rule half_shift)
    have "arcsin (sin ?th) < arcsin (2 * (real_of_int y / real_of_int T) - 1)"
      using s quantile_arg(2) [OF T y] by (intro arcsin_less_arcsin) simp_all
    then have "?th < arcsin (2 * (real_of_int y / real_of_int T) - 1)"
      using arcsin_sin [OF th_lo th_hi] by simp
    then have "?k * pi / c < arcsin (2 * (real_of_int y / real_of_int T) - 1) + pi / 2"
      by linarith
    then have "?k * pi < c * (arcsin (2 * (real_of_int y / real_of_int T) - 1) + pi / 2)"
      using c by (simp add: field_simps)
    then have "?k < c * (arcsin (2 * (real_of_int y / real_of_int T) - 1) + pi / 2) / pi"
      by (simp add: field_simps)
    then show ?thesis by (simp add: k_scale_def QuantileToCentroid_def)
  qed
qed

subsection \<open>The number of centroids a merge leaves\<close>

text \<open>
  With \<open>a\<close> the cumulative count before the current centroid: the centroid after the
  next one starts beyond \<open>k_scale a + 1\<close>, so two consecutive centroids use up more than
  one unit of the scale, which has \<open>c\<close> units.
\<close>

lemma merge_list_length:
  assumes c: "0 < c" and T: "0 < T"
    and "0 < count lm" and "\<forall>x \<in> set rest. 0 < count x"
    and "count lm \<le> mc"
    and "mc + sum_list (map count rest) \<le> T"
    and "ql = next_limit c T (mc - count lm)"
  shows "int (length (merge_list c T lm mc ql rest))
           \<le> 2 * \<lceil>c - k_scale c T (mc - count lm)\<rceil> - 1
         \<and> (\<forall>w. w < k_scale c T mc \<longrightarrow>
               int (length (merge_list c T lm mc ql rest)) \<le> 2 * \<lceil>c - w\<rceil>)"
  using assms(3-)
proof (induction rest arbitrary: lm mc ql)
  case Nil
  have mcT: "mc \<le> T" using Nil.prems by simp
  have l: "int (length (merge_list c T lm mc ql [])) = 1" by simp
  have "k_scale c T (mc - count lm) < c"
    using Nil.prems mcT by (intro k_scale_less [OF c T]) simp_all
  then have h1: "1 \<le> \<lceil>c - k_scale c T (mc - count lm)\<rceil>" by simp
  have h2: "1 \<le> \<lceil>c - w\<rceil>" if "w < k_scale c T mc" for w
  proof -
    have "k_scale c T mc \<le> c"
      using Nil.prems mcT by (intro k_scale_le [OF c T]) simp_all
    then show ?thesis using that by simp
  qed
  show ?case unfolding l
  proof (intro conjI allI impI)
    show "1 \<le> 2 * \<lceil>c - k_scale c T (mc - count lm)\<rceil> - 1" using h1 by linarith
    show "1 \<le> 2 * \<lceil>c - w\<rceil>" if "w < k_scale c T mc" for w using h2 [OF that] by linarith
  qed
next
  case (Cons fu rest)
  let ?x = "count fu" and ?a = "mc - count lm"
  have x: "0 < ?x" and rest: "\<forall>x \<in> set rest. 0 < count x"
    using Cons.prems(2) by simp_all
  have sum0: "0 \<le> sum_list (map count rest)"
    using rest by (intro sum_list_nonneg) auto
  have bound: "mc + ?x + sum_list (map count rest) \<le> T" using Cons.prems(4) by simp
  have mcx: "mc + ?x \<le> T" using bound sum0 by simp
  have mc0: "0 < mc" using Cons.prems(1,3) by simp
  show ?case
  proof (cases "of_count (?x + mc) \<le> ql")
    case True
    let ?lm' = "absorb lm fu"
    have eq: "merge_list c T lm mc ql (fu # rest) = merge_list c T ?lm' (mc + ?x) ql rest"
      using True by simp
    have a': "mc + ?x - count ?lm' = ?a" by (simp add: absorb_count)
    have ih: "int (length (merge_list c T ?lm' (mc + ?x) ql rest))
                \<le> 2 * \<lceil>c - k_scale c T ?a\<rceil> - 1
              \<and> (\<forall>w. w < k_scale c T (mc + ?x) \<longrightarrow>
                 int (length (merge_list c T ?lm' (mc + ?x) ql rest)) \<le> 2 * \<lceil>c - w\<rceil>)"
      using Cons.IH [of ?lm' "mc + ?x" ql] Cons.prems(1,3,5) x rest bound
      by (simp add: absorb_count)
    have "k_scale c T mc \<le> k_scale c T (mc + ?x)"
      using mc0 x mcx by (intro k_scale_mono [OF c T]) simp_all
    then show ?thesis unfolding eq using ih by force
  next
    case False
    let ?R = "merge_list c T fu (mc + ?x) (next_limit c T mc) rest"
    have eq: "merge_list c T lm mc ql (fu # rest) = lm # ?R" using False by simp
    have ih: "int (length ?R) \<le> 2 * \<lceil>c - k_scale c T mc\<rceil> - 1
              \<and> (\<forall>w. w < k_scale c T (mc + ?x) \<longrightarrow> int (length ?R) \<le> 2 * \<lceil>c - w\<rceil>)"
      using Cons.IH [of fu "mc + ?x" "next_limit c T mc"] x rest bound mc0 by simp
    have "\<not> of_count (?x + mc) \<le> next_limit c T ?a" using False Cons.prems(5) by simp
    then have adv: "k_scale c T ?a + 1 < k_scale c T (?x + mc)"
      using Cons.prems(1,3) mc0 x mcx by (intro beyond_limit [OF c T]) simp_all
    have A: "int (length (lm # ?R)) \<le> 2 * \<lceil>c - k_scale c T ?a\<rceil> - 1"
    proof -
      have "int (length ?R) \<le> 2 * \<lceil>c - (k_scale c T ?a + 1)\<rceil>"
        using ih adv by (simp add: add.commute)
      moreover have "\<lceil>c - (k_scale c T ?a + 1)\<rceil> = \<lceil>c - k_scale c T ?a\<rceil> - 1"
        by (simp add: diff_diff_eq [symmetric] del: diff_diff_eq)
      ultimately show ?thesis by simp
    qed
    have B: "int (length (lm # ?R)) \<le> 2 * \<lceil>c - w\<rceil>" if "w < k_scale c T mc" for w
    proof -
      have "\<lceil>c - k_scale c T mc\<rceil> \<le> \<lceil>c - w\<rceil>" using that by (intro ceiling_mono) simp
      then show ?thesis using ih by simp
    qed
    show ?thesis unfolding eq using A B by blast
  qed
qed

subsection \<open>What DoMerge leaves\<close>

lemma sum_list_insort_key:
  "sum_list (map g (insort_key f x xs)) = g x + sum_list (map (g :: 'a \<Rightarrow> int) xs)"
  by (induction xs) auto

lemma sum_list_sort_key:
  "sum_list (map g (sort_key f xs)) = sum_list (map (g :: 'a \<Rightarrow> int) xs)"
  by (induction xs) (auto simp: sum_list_insort_key)

lemma sorted_fst_of_pair:
  "sorted (map (\<lambda>c. (f c :: real, g c :: int)) xs) \<Longrightarrow> sorted (map f xs)"
  by (induction xs) (auto simp: less_eq_prod_def)

lemma sort_centroids_props:
  "set (sort_centroids cs) = set cs"
  "length (sort_centroids cs) = length cs"
  "sum_list (map count (sort_centroids cs)) = sum_list (map count cs)"
  "sorted (map mean (sort_centroids cs))"
proof -
  show "set (sort_centroids cs) = set cs" by (simp add: sort_centroids_def)
  show "length (sort_centroids cs) = length cs" by (simp add: sort_centroids_def)
  show "sum_list (map count (sort_centroids cs)) = sum_list (map count cs)"
    by (simp add: sort_centroids_def sum_list_sort_key)
  have "sorted (map (\<lambda>c. (mean c, count c)) (sort_centroids cs))"
    unfolding sort_centroids_def by (rule sorted_sort_key)
  then show "sorted (map mean (sort_centroids cs))" by (rule sorted_fst_of_pair)
qed

lemma DoMerge_noop: "unmerged_m d = 0 \<Longrightarrow> DoMerge d = d"
  by (simp add: DoMerge_def)

lemma DoMerge_fields:
  assumes "0 < unmerged_m d" and "merged_m d + unmerged_m d = length (centroids_m d)"
    and "sort_centroids (centroids_m d) = c0 # rest"
    and "L = merge_list (compression_m d) (count_m d) c0 (count c0)
               (of_count (count_m d) * CentroidToQuantile (compression_m d) 1) rest"
  shows "centroids_m (DoMerge d) = L" and "merged_m (DoMerge d) = length L"
    and "unmerged_m (DoMerge d) = 0"
    and "compression_m (DoMerge d) = compression_m d"
    and "batch_size_m (DoMerge d) = batch_size_m d"
    and "count_m (DoMerge d) = count_m d"
    and "min_m (DoMerge d) = min (min_m d) (mean (hd L))"
    and "max_m (DoMerge d) = max (max_m d) (mean (last L))"
proof -
  let ?cs = "sort_centroids (centroids_m d)"
  let ?init = "\<lparr>buf = ?cs, last_merged = 0, first_unmerged = 1, mv_merged = 1,
              merged_count = count (?cs ! 0),
              q_limit = of_count (count_m d) * CentroidToQuantile (compression_m d) (0 + 1),
              mv_sum = 0\<rparr>"
  let ?n = "unmerged_m d + merged_m d - 1"
  let ?v = "merge_loop (compression_m d) (count_m d) ?n ?init"
  have len: "length ?cs = length (centroids_m d)" by (rule sort_centroids_props)
  have p: "last_merged ?init < first_unmerged ?init"
    "first_unmerged ?init + ?n = length (buf ?init)"
    "mv_merged ?init = last_merged ?init + 1"
    using assms(1,2) len by simp_all
  note r = merge_loop_list [OF p, of "compression_m d" "count_m d"]
  have tk: "take (mv_merged ?v) (buf ?v) = L"
    using r [THEN conjunct2, THEN conjunct2] assms(3,4) by simp
  have "mv_merged ?v \<le> length (buf ?v)"
    using r [THEN conjunct1] r [THEN conjunct2, THEN conjunct1] by simp
  then have ln: "mv_merged ?v = length L" using tk by (metis length_take min.absorb2)
  have ne: "L \<noteq> []" using assms(4) by (simp add: merge_list_nonempty)
  have dm: "DoMerge d =
     (let d1 = d\<lparr>centroids_m := L, merged_m := length L, unmerged_m := 0,
                  sum_m := mv_sum ?v + mean (buf ?v ! last_merged ?v)
                                     * real_of_int (count (buf ?v ! last_merged ?v))\<rparr>
      in d1\<lparr>min_m := min (min_m d1) (mean (hd L)), max_m := max (max_m d1) (mean (last L))\<rparr>)"
    using assms(1) ne unfolding DoMerge_def Let_def tk ln [symmetric] by simp
  show "centroids_m (DoMerge d) = L" and "merged_m (DoMerge d) = length L"
    and "unmerged_m (DoMerge d) = 0"
    and "compression_m (DoMerge d) = compression_m d"
    and "batch_size_m (DoMerge d) = batch_size_m d"
    and "count_m (DoMerge d) = count_m d"
    and "min_m (DoMerge d) = min (min_m d) (mean (hd L))"
    and "max_m (DoMerge d) = max (max_m d) (mean (last L))"
    by (simp_all add: dm Let_def)
qed

subsection \<open>The invariants hold in every digest\<close>

lemma MaxCentroids_bounded:
  "0 \<le> c \<Longrightarrow> c \<le> kMaxCompression \<Longrightarrow> MaxCentroids c = 2 * nat \<lceil>c\<rceil>"
  by (simp add: MaxCentroids_def BoundedCompression_def)

lemma first_limit: "of_count T * CentroidToQuantile c 1 = next_limit c T 0"
  by (simp add: next_limit_def QuantileToCentroid_def)

lemma DoMerge_inv:
  assumes "td_inv d p"
  shows "td_inv (DoMerge d) p" and "unmerged_m (DoMerge d) = 0"
    and "compression_m (DoMerge d) = compression_m d"
    and "count_m (DoMerge d) = count_m d"
proof -
  have all: "td_inv (DoMerge d) p \<and> unmerged_m (DoMerge d) = 0
             \<and> compression_m (DoMerge d) = compression_m d
             \<and> count_m (DoMerge d) = count_m d"
  proof (cases "unmerged_m d = 0")
    case True
    then show ?thesis using assms by (simp add: DoMerge_noop)
  next
    case False
    let ?c = "compression_m d" and ?T = "count_m d"
    let ?cs = "sort_centroids (centroids_m d)"
    have un: "0 < unmerged_m d" using False by simp
    have len: "merged_m d + unmerged_m d = length (centroids_m d)"
      using assms by (simp add: td_inv_def)
    have "?cs \<noteq> []" using un len sort_centroids_props(2) [of "centroids_m d"] by auto
    then obtain c0 rest where cs: "?cs = c0 # rest" by (cases ?cs) auto
    define L where "L = merge_list ?c ?T c0 (count c0) (of_count ?T * CentroidToQuantile ?c 1) rest"
    note f = DoMerge_fields [OF un len cs L_def]
    have pos: "\<forall>x \<in> set ?cs. 0 < count x"
      using assms by (simp add: td_inv_def sort_centroids_props)
    then have pos0: "0 < count c0" and posr: "\<forall>x \<in> set rest. 0 < count x"
      by (simp_all add: cs)
    have sum: "sum_list (map count ?cs) = sum_list (map count (centroids_m d))"
      by (rule sort_centroids_props)
    then have sum': "count c0 + sum_list (map count rest) = sum_list (map count (centroids_m d))"
      by (simp add: cs)
    have srt: "sorted (map mean (c0 # rest))"
      using sort_centroids_props(4) [of "centroids_m d"] by (simp add: cs)
    have Lpos: "\<forall>x \<in> set L. 0 < count x"
      unfolding L_def by (rule merge_list_counts_pos [OF pos0 posr])
    have Lsum: "sum_list (map count L) = sum_list (map count (centroids_m d))"
      unfolding L_def by (simp add: merge_list_count_sum sum')
    have Lsorted: "sorted (map mean L)"
      unfolding L_def using merge_list_sorted [of rest c0] srt pos0 posr by simp
    have Lne: "L \<noteq> []" unfolding L_def by (rule merge_list_nonempty)
    have Llen: "length L \<le> MaxCentroids ?c" if c: "0 < ?c"
    proof -
      have p0: "0 \<le> p" and cnt: "?T = sum_list (map count (centroids_m d)) + p"
        and cmax: "?c \<le> kMaxCompression"
        using assms by (simp_all add: td_inv_def)
      have "0 \<le> sum_list (map count rest)" using posr by (intro sum_list_nonneg) auto
      then have T: "0 < ?T" using cnt sum' pos0 p0 by simp
      have b: "count c0 + sum_list (map count rest) \<le> ?T" using cnt sum' p0 by simp
      have "int (length L) \<le> 2 * \<lceil>?c - k_scale ?c ?T (count c0 - count c0)\<rceil> - 1"
        unfolding L_def
        using merge_list_length [OF c T pos0 posr _ b, of "of_count ?T * CentroidToQuantile ?c 1"]
        by (simp add: first_limit)
      then have "int (length L) \<le> 2 * \<lceil>?c\<rceil>" by (simp add: k_scale_zero)
      then have "length L \<le> 2 * nat \<lceil>?c\<rceil>" by linarith
      then show ?thesis using c cmax by (simp add: MaxCentroids_bounded)
    qed
    have "td_inv (DoMerge d) p"
      using assms Lpos Lsum Lsorted Lne Llen
      by (simp add: td_inv_def f)
    then show ?thesis by (simp add: f)
  qed
  then show "td_inv (DoMerge d) p" and "unmerged_m (DoMerge d) = 0"
    and "compression_m (DoMerge d) = compression_m d"
    and "count_m (DoMerge d) = count_m d"
    by simp_all
qed

lemma Reset_inv: "0 \<le> c \<Longrightarrow> td_inv (Reset c) 0"
  by (simp add: td_inv_def Reset_def BoundedCompression_def kMaxCompression_def Let_def)

lemma UpdateStats_inv:
  "td_inv d p \<Longrightarrow> 0 \<le> cnt \<Longrightarrow> td_inv (UpdateStats d mn mx sm cnt) (p + cnt)"
  by (auto simp: td_inv_def UpdateStats_def)

lemma AddUnmergedCentroid_inv:
  assumes "td_inv d p" and "0 < count c" and "count c \<le> p"
  shows "td_inv (AddUnmergedCentroid d c) (p - count c)"
proof -
  let ?d1 = "d\<lparr>centroids_m := centroids_m d @ [c], unmerged_m := unmerged_m d + 1\<rparr>"
  have "td_inv ?d1 (p - count c)"
    using assms by (auto simp: td_inv_def)
  moreover have "AddUnmergedCentroid d c = ?d1 \<or> AddUnmergedCentroid d c = DoMerge ?d1"
    by (simp add: AddUnmergedCentroid_def Let_def)
  ultimately show ?thesis
    using DoMerge_inv(1) [of ?d1 "p - count c"] by metis
qed

lemma AddUnmergedCentroid_compression:
  "compression_m (AddUnmergedCentroid d c) = compression_m d"
proof -
  have *: "compression_m (DoMerge e) = compression_m e" for e
    by (simp add: DoMerge_def Let_def)
  show ?thesis by (simp add: AddUnmergedCentroid_def Let_def *)
qed

lemma Add_inv:
  assumes "td_inv d 0" and "0 \<le> cnt"
  shows "td_inv (Add d val cnt) 0"
proof (cases "cnt = 0")
  case True
  then show ?thesis using assms by (simp add: Add_def)
next
  case False
  then have pos: "0 < cnt" using assms(2) by simp
  have "td_inv (UpdateStats d val val (val * real_of_int cnt) cnt) (0 + cnt)"
    using assms by (intro UpdateStats_inv)
  then have "td_inv (AddUnmergedCentroid (UpdateStats d val val (val * real_of_int cnt) cnt)
                       \<lparr>mean = val, count = cnt\<rparr>) (cnt - count \<lparr>mean = val, count = cnt\<rparr>)"
    using pos by (intro AddUnmergedCentroid_inv) simp_all
  then show ?thesis using False by (simp add: Add_def)
qed

lemma foldl_AddUnmergedCentroid_inv:
  "td_inv d (p + sum_list (map count cs)) \<Longrightarrow> 0 \<le> p \<Longrightarrow> \<forall>c \<in> set cs. 0 < count c \<Longrightarrow>
     td_inv (foldl AddUnmergedCentroid d cs) p"
proof (induction cs arbitrary: d)
  case Nil
  then show ?case by simp
next
  case (Cons c cs)
  have "0 \<le> sum_list (map count cs)" using Cons.prems(3) by (intro sum_list_nonneg) auto
  then have "count c \<le> p + sum_list (map count (c # cs))" using Cons.prems(2) by simp
  then have "td_inv (AddUnmergedCentroid d c) (p + sum_list (map count (c # cs)) - count c)"
    using Cons.prems by (intro AddUnmergedCentroid_inv) simp_all
  then have "td_inv (AddUnmergedCentroid d c) (p + sum_list (map count cs))" by simp
  then show ?case using Cons.IH Cons.prems by simp
qed

lemma Merge_inv:
  assumes "td_inv d 0" and "td_inv that 0"
  shows "td_inv (Merge d that) 0"
proof -
  let ?d1 = "if compression_m d = 0 then Reset (compression_m that) else d"
  have c: "0 \<le> compression_m that" and pos: "\<forall>c \<in> set (centroids_m that). 0 < count c"
    and cnt: "count_m that = sum_list (map count (centroids_m that))"
    using assms(2) by (simp_all add: td_inv_def)
  have "0 \<le> count_m that" unfolding cnt using pos by (intro sum_list_nonneg) auto
  moreover have "td_inv ?d1 0" using assms(1) c by (simp add: Reset_inv)
  ultimately have "td_inv (UpdateStats ?d1 (min_m that) (max_m that) (sum_m that) (count_m that))
                     (0 + count_m that)"
    by (intro UpdateStats_inv)
  then have "td_inv (foldl AddUnmergedCentroid
                       (UpdateStats ?d1 (min_m that) (max_m that) (sum_m that) (count_m that))
                       (centroids_m that)) 0"
    using pos by (intro foldl_AddUnmergedCentroid_inv) (simp_all add: cnt)
  then show ?thesis by (simp add: Merge_def Let_def)
qed

lemma built_inv: "nonneg_calls b \<Longrightarrow> td_inv (digest_of b) 0"
proof (induction b)
  case (New compression)
  then show ?case by (simp add: Reset_inv)
next
  case (AddTo b val cnt)
  then show ?case by (simp add: Add_inv)
next
  case (MergeWith b that)
  then show ?case by (simp add: Merge_inv)
next
  case (Forced b)
  then show ?case by (simp add: DoMerge_inv)
qed

lemma DoMerge_idem: "td_inv d p \<Longrightarrow> DoMerge (DoMerge d) = DoMerge d"
  using DoMerge_inv(2) [of d p] by (simp add: DoMerge_noop)

lemma foldl_AddUnmergedCentroid_compression:
  "compression_m (foldl AddUnmergedCentroid d cs) = compression_m d"
  by (induction cs arbitrary: d) (simp_all add: AddUnmergedCentroid_compression)


text \<open>
  The compression a digest is created with, when in \<open>[0, 10^6]\<close>, is the one it keeps:
  \<open>Add\<close> never changes it, and \<open>Merge\<close> only replaces a compression of zero.
\<close>

lemma Reset_compression:
  "0 \<le> c \<Longrightarrow> c \<le> 1000000 \<Longrightarrow> compression_m (Reset c) = c"
  by (simp add: Reset_fields)

lemma Add_compression: "compression_m (Add d val cnt) = compression_m d"
  by (simp add: Add_def AddUnmergedCentroid_compression UpdateStats_def)

lemma Merge_compression:
  "compression_m d \<noteq> 0 \<Longrightarrow> compression_m (Merge d that) = compression_m d"
  by (simp add: Merge_def Let_def foldl_AddUnmergedCentroid_compression UpdateStats_def)

lemma two_centroid_build_digest: "digest_of two_centroid_build = two_centroid_digest"
  by (simp add: two_centroid_build_def two_centroid_digest_def)

lemma two_centroid_build_ok: "nonneg_calls two_centroid_build"
  by (simp add: two_centroid_build_def Add_def Reset_def UpdateStats_def
      AddUnmergedCentroid_def BoundedCompression_def MaxCentroids_def kMaxCompression_def
      INT64_MAX_def Let_def)












subsection \<open>What a merge leaves is merged\<close>

lemma merge_loop_sum:
  assumes "last_merged v < first_unmerged v"
    and "first_unmerged v + n = length (buf v)"
  shows "mv_sum (merge_loop c T n v)
           + mean (buf (merge_loop c T n v) ! last_merged (merge_loop c T n v))
             * real_of_int (count (buf (merge_loop c T n v) ! last_merged (merge_loop c T n v)))
         = mv_sum v
           + weighted_sum (merge_list c T (buf v ! last_merged v) (merged_count v) (q_limit v)
                             (drop (first_unmerged v) (buf v)))"
  using assms
proof (induction n arbitrary: v)
  case 0
  then show ?case by (simp add: weighted_sum_def)
next
  case (Suc n)
  let ?lm = "buf v ! last_merged v" and ?fu = "buf v ! first_unmerged v"
  let ?v' = "merge_step c T v"
  have fu_lt: "first_unmerged v < length (buf v)" using Suc.prems by simp
  have lm_lt: "last_merged v < length (buf v)" using Suc.prems by simp
  have dr: "drop (first_unmerged v) (buf v) = ?fu # drop (Suc (first_unmerged v)) (buf v)"
    using fu_lt by (simp add: Cons_nth_drop_Suc)
  have step: "merge_loop c T (Suc n) v = merge_loop c T n ?v'" by simp
  show ?case
  proof (cases "of_count (count ?fu + merged_count v) \<le> q_limit v")
    case True
    have v': "?v' = v\<lparr>buf := (buf v)[last_merged v := absorb ?lm ?fu],
                 merged_count := merged_count v + count ?fu,
                 first_unmerged := first_unmerged v + 1\<rparr>"
      using True by (simp add: merge_step_def Let_def absorb_def)
    have p: "last_merged ?v' < first_unmerged ?v'"
      "first_unmerged ?v' + n = length (buf ?v')"
      using Suc.prems by (simp_all add: v')
    have e: "mv_sum ?v' = mv_sum v"
      "buf ?v' ! last_merged ?v' = absorb ?lm ?fu"
      "merged_count ?v' = merged_count v + count ?fu"
      "q_limit ?v' = q_limit v"
      "drop (first_unmerged ?v') (buf ?v') = drop (Suc (first_unmerged v)) (buf v)"
      using Suc.prems lm_lt by (simp_all add: v')
    have ml: "merge_list c T ?lm (merged_count v) (q_limit v) (drop (first_unmerged v) (buf v))
              = merge_list c T (absorb ?lm ?fu) (merged_count v + count ?fu) (q_limit v)
                  (drop (Suc (first_unmerged v)) (buf v))"
      using True by (simp add: dr)
    show ?thesis unfolding step ml using Suc.IH [OF p] unfolding e .
  next
    case False
    have v': "?v' = v\<lparr>q_limit := next_limit c T (merged_count v),
              merged_count := merged_count v + count ?fu,
              mv_sum := mv_sum v + mean ?lm * real_of_int (count ?lm),
              mv_merged := mv_merged v + 1,
              last_merged := last_merged v + 1,
              buf := (buf v)[last_merged v + 1 := ?fu],
              first_unmerged := first_unmerged v + 1\<rparr>"
      using False by (simp add: merge_step_def Let_def next_limit_def)
    have p: "last_merged ?v' < first_unmerged ?v'"
      "first_unmerged ?v' + n = length (buf ?v')"
      using Suc.prems by (simp_all add: v')
    have e: "mv_sum ?v' = mv_sum v + mean ?lm * real_of_int (count ?lm)"
      "buf ?v' ! last_merged ?v' = ?fu"
      "merged_count ?v' = merged_count v + count ?fu"
      "q_limit ?v' = next_limit c T (merged_count v)"
      "drop (first_unmerged ?v') (buf ?v') = drop (Suc (first_unmerged v)) (buf v)"
      using Suc.prems lm_lt fu_lt by (simp_all add: v')
    have ml: "merge_list c T ?lm (merged_count v) (q_limit v) (drop (first_unmerged v) (buf v))
              = ?lm # merge_list c T ?fu (merged_count v + count ?fu)
                  (next_limit c T (merged_count v)) (drop (Suc (first_unmerged v)) (buf v))"
      using False by (simp add: dr)
    show ?thesis unfolding step ml using Suc.IH [OF p] unfolding e
      by (simp add: weighted_sum_def)
  qed
qed

lemma DoMerge_sum:
  assumes "0 < unmerged_m d" and "merged_m d + unmerged_m d = length (centroids_m d)"
    and "sort_centroids (centroids_m d) = c0 # rest"
  shows "sum_m (DoMerge d)
         = weighted_sum (merge_list (compression_m d) (count_m d) c0 (count c0)
               (of_count (count_m d) * CentroidToQuantile (compression_m d) 1) rest)"
proof -
  let ?cs = "sort_centroids (centroids_m d)"
  let ?init = "\<lparr>buf = ?cs, last_merged = 0, first_unmerged = 1, mv_merged = 1,
              merged_count = count (?cs ! 0),
              q_limit = of_count (count_m d) * CentroidToQuantile (compression_m d) (0 + 1),
              mv_sum = 0\<rparr>"
  let ?n = "unmerged_m d + merged_m d - 1"
  let ?v = "merge_loop (compression_m d) (count_m d) ?n ?init"
  have len: "length ?cs = length (centroids_m d)" by (rule sort_centroids_props)
  have p: "last_merged ?init < first_unmerged ?init"
    "first_unmerged ?init + ?n = length (buf ?init)"
    using assms(1,2) len by simp_all
  note r = merge_loop_sum [OF p, of "compression_m d" "count_m d"]
  have "sum_m (DoMerge d)
        = mv_sum ?v + mean (buf ?v ! last_merged ?v)
                      * real_of_int (count (buf ?v ! last_merged ?v))"
    using assms(1) by (simp add: DoMerge_def Let_def)
  then show ?thesis using r assms(3) by simp
qed

lemma not_le_limit_mono:
  "\<not> of_count a \<le> ql \<Longrightarrow> a \<le> b \<Longrightarrow> \<not> of_count b \<le> ql"
  by (cases ql) (simp_all add: of_count_def)

lemma merge_list_hd_count:
  "\<forall>x \<in> set rest. 0 < count x \<Longrightarrow> count lm \<le> count (hd (merge_list c T lm mc ql rest))"
proof (induction rest arbitrary: lm mc ql)
  case Nil
  then show ?case by simp
next
  case (Cons fu rest)
  have fu: "0 < count fu" and rest: "\<forall>x \<in> set rest. 0 < count x"
    using Cons.prems by simp_all
  show ?case
  proof (cases "of_count (count fu + mc) \<le> ql")
    case True
    have "count (absorb lm fu) \<le> count (hd (merge_list c T (absorb lm fu) (mc + count fu) ql rest))"
      using rest by (rule Cons.IH)
    then show ?thesis using True fu by (simp add: absorb_count)
  next
    case False
    then show ?thesis by simp
  qed
qed

lemma merge_list_fixed:
  "\<forall>x \<in> set rest. 0 < count x \<Longrightarrow>
     merge_list c T (hd (merge_list c T lm mc ql rest))
       (mc - count lm + count (hd (merge_list c T lm mc ql rest))) ql
       (tl (merge_list c T lm mc ql rest))
     = merge_list c T lm mc ql rest"
proof (induction rest arbitrary: lm mc ql)
  case Nil
  then show ?case by simp
next
  case (Cons fu rest)
  have fu: "0 < count fu" and rest: "\<forall>x \<in> set rest. 0 < count x"
    using Cons.prems by simp_all
  show ?case
  proof (cases "of_count (count fu + mc) \<le> ql")
    case True
    have L: "merge_list c T lm mc ql (fu # rest)
          = merge_list c T (absorb lm fu) (mc + count fu) ql rest"
      using True by simp
    have m: "mc + count fu - count (absorb lm fu) = mc - count lm"
      by (simp add: absorb_count)
    show ?thesis
      unfolding L using Cons.IH [OF rest, of "absorb lm fu" "mc + count fu" ql]
      unfolding m .
  next
    case False
    let ?L2 = "merge_list c T fu (mc + count fu) (next_limit c T mc) rest"
    have L: "merge_list c T lm mc ql (fu # rest) = lm # ?L2" using False by simp
    have ne: "?L2 \<noteq> []" by (rule merge_list_nonempty)
    then have L2: "?L2 = hd ?L2 # tl ?L2" by simp
    have "count fu \<le> count (hd ?L2)" using rest by (rule merge_list_hd_count)
    then have no: "\<not> of_count (count (hd ?L2) + mc) \<le> ql"
      using not_le_limit_mono [OF False] by simp
    have ih: "merge_list c T (hd ?L2) (mc + count (hd ?L2)) (next_limit c T mc) (tl ?L2) = ?L2"
      using Cons.IH [OF rest, of fu "mc + count fu" "next_limit c T mc"] by simp
    have "merge_list c T lm mc ql (hd ?L2 # tl ?L2)
          = lm # merge_list c T (hd ?L2) (mc + count (hd ?L2)) (next_limit c T mc) (tl ?L2)"
      using no by simp
    then have "merge_list c T lm mc ql ?L2 = lm # ?L2" using ih L2 by simp
    then show ?thesis unfolding L by simp
  qed
qed

lemma counts_zero:
  assumes "\<forall>c \<in> set cs. 0 < count c" and "sum_list (map count cs) = 0"
  shows "cs = []"
proof (cases cs)
  case Nil
  then show ?thesis .
next
  case (Cons c rest)
  have "0 \<le> sum_list (map count rest)"
    using assms(1) Cons by (intro sum_list_nonneg) auto
  moreover have "0 < count c" using assms(1) Cons by simp
  ultimately show ?thesis using assms(2) Cons by simp
qed

lemma counts_one:
  assumes "\<forall>c \<in> set cs. 0 < count c" and "sum_list (map count cs) = 1"
  shows "\<exists>c. cs = [c] \<and> count c = 1"
proof (cases cs)
  case Nil
  then show ?thesis using assms(2) by simp
next
  case (Cons c rest)
  have r: "\<forall>x \<in> set rest. 0 < count x" using assms(1) Cons by simp
  then have "0 \<le> sum_list (map count rest)" by (intro sum_list_nonneg) auto
  moreover have "0 < count c" using assms(1) Cons by simp
  ultimately have "sum_list (map count rest) = 0" and "count c = 1"
    using assms(2) Cons by simp_all
  then show ?thesis using counts_zero [OF r] Cons by simp
qed

lemma DoMerge_monotone:
  "min_m (DoMerge d) \<le> min_m d" "max_m d \<le> max_m (DoMerge d)"
  "count_m (DoMerge d) = count_m d"
  by (simp_all add: DoMerge_def Let_def)

lemma DoMerge_fixed:
  assumes "td_inv d p" and "0 < unmerged_m d"
  shows "merge_list (compression_m (DoMerge d)) (count_m (DoMerge d))
           (hd (centroids_m (DoMerge d))) (count (hd (centroids_m (DoMerge d))))
           (next_limit (compression_m (DoMerge d)) (count_m (DoMerge d)) 0)
           (tl (centroids_m (DoMerge d))) = centroids_m (DoMerge d)"
    and "sum_m (DoMerge d) = weighted_sum (centroids_m (DoMerge d))"
proof -
  let ?cs = "sort_centroids (centroids_m d)"
  let ?c = "compression_m d" and ?T = "count_m d"
  have len: "merged_m d + unmerged_m d = length (centroids_m d)"
    using assms(1) by (simp add: td_inv_def)
  have "length ?cs = length (centroids_m d)" by (rule sort_centroids_props)
  then have "length ?cs \<noteq> 0" using assms(2) len by linarith
  then obtain c0 rest where cs: "?cs = c0 # rest" by (cases ?cs) auto
  define L where "L = merge_list ?c ?T c0 (count c0) (of_count ?T * CentroidToQuantile ?c 1) rest"
  note f = DoMerge_fields [OF assms(2) len cs L_def]
  have "\<forall>x \<in> set ?cs. 0 < count x"
    using assms(1) by (simp add: td_inv_def sort_centroids_props)
  then have posr: "\<forall>x \<in> set rest. 0 < count x" by (simp add: cs)
  have "merge_list ?c ?T (hd L) (count c0 - count c0 + count (hd L))
          (of_count ?T * CentroidToQuantile ?c 1) (tl L) = L"
    unfolding L_def by (rule merge_list_fixed [OF posr])
  then show "merge_list (compression_m (DoMerge d)) (count_m (DoMerge d))
           (hd (centroids_m (DoMerge d))) (count (hd (centroids_m (DoMerge d))))
           (next_limit (compression_m (DoMerge d)) (count_m (DoMerge d)) 0)
           (tl (centroids_m (DoMerge d))) = centroids_m (DoMerge d)"
    by (simp add: f first_limit)
  show "sum_m (DoMerge d) = weighted_sum (centroids_m (DoMerge d))"
    using DoMerge_sum [OF assms(2) len cs] by (simp add: f L_def)
qed

lemma Reset_settled: "settled (Reset c)"
  by (simp add: settled_def Reset_def Let_def DBL_MAX_def)

lemma DoMerge_settled:
  assumes inv: "td_inv d 0" and s: "settled d"
  shows "settled (DoMerge d)"
proof (cases "unmerged_m d = 0")
  case True
  then show ?thesis using s by (simp add: DoMerge_noop)
next
  case False
  then have un: "0 < unmerged_m d" by simp
  have len: "merged_m d + unmerged_m d = length (centroids_m d)"
    and pos: "\<forall>c \<in> set (centroids_m d). 0 < count c"
    and cnt: "count_m d = sum_list (map count (centroids_m d))"
    using inv by (simp_all add: td_inv_def)
  have b: "min_m (DoMerge d) \<le> DBL_MAX" "- DBL_MAX \<le> max_m (DoMerge d)"
    using s DoMerge_monotone(1,2) [of d] by (simp_all add: settled_def)
  have e: "count_m (DoMerge d) \<noteq> 0"
  proof
    assume "count_m (DoMerge d) = 0"
    then have "sum_list (map count (centroids_m d)) = 0" using cnt by (simp add: DoMerge_monotone)
    then have "centroids_m d = []" using pos by (intro counts_zero)
    then show False using len un by simp
  qed
  have one: "\<forall>c \<in> set (centroids_m (DoMerge d)).
              min_m (DoMerge d) = min DBL_MAX (mean c)
              \<and> max_m (DoMerge d) = max (- DBL_MAX) (mean c)
              \<and> sum_m (DoMerge d) = mean c"
    if c1: "count_m (DoMerge d) = 1"
  proof -
    have "sum_list (map count (centroids_m d)) = 1"
      using c1 cnt by (simp add: DoMerge_monotone)
    then obtain c where c: "centroids_m d = [c]" "count c = 1"
      using counts_one [OF pos] by blast
    have srt: "sort_centroids (centroids_m d) = c # []" by (simp add: c sort_centroids_def)
    note f = DoMerge_fields [OF un len srt refl]
    have m: "min_m d = min DBL_MAX (mean c)" "max_m d = max (- DBL_MAX) (mean c)"
      using s c1 c by (simp_all add: settled_def DoMerge_monotone)
    have "sum_m (DoMerge d) = mean c"
      using DoMerge_sum [OF un len srt] c(2) by (simp add: weighted_sum_def)
    then show ?thesis using m by (simp add: f)
  qed
  show ?thesis
    using b e one DoMerge_fixed [OF inv un] DoMerge_inv(2) [OF inv]
    by (simp add: settled_def)
qed

lemma appended_inv:
  assumes "td_inv d p" and "0 < count c" and "count c \<le> p"
  shows "td_inv (d\<lparr>centroids_m := centroids_m d @ [c], unmerged_m := unmerged_m d + 1\<rparr>)
           (p - count c)"
  using assms by (auto simp: td_inv_def)

lemma AddUnmergedCentroid_cases:
  "AddUnmergedCentroid d c
     = d\<lparr>centroids_m := centroids_m d @ [c], unmerged_m := unmerged_m d + 1\<rparr>
   \<or> AddUnmergedCentroid d c
     = DoMerge (d\<lparr>centroids_m := centroids_m d @ [c], unmerged_m := unmerged_m d + 1\<rparr>)"
  by (simp add: AddUnmergedCentroid_def Let_def)

lemma Add_settled:
  assumes inv: "td_inv d 0" and s: "settled d" and n: "0 \<le> cnt"
  shows "settled (Add d val cnt)"
proof (cases "cnt = 0")
  case True
  then show ?thesis using s by (simp add: Add_def)
next
  case False
  then have pos: "0 < cnt" using n by simp
  let ?u = "UpdateStats d val val (val * real_of_int cnt) cnt"
  let ?c = "\<lparr>mean = val, count = cnt\<rparr>"
  let ?x = "?u\<lparr>centroids_m := centroids_m ?u @ [?c], unmerged_m := unmerged_m ?u + 1\<rparr>"
  have "td_inv ?u (0 + cnt)" using inv n by (intro UpdateStats_inv)
  then have "td_inv ?x (0 + cnt - count ?c)" using pos by (intro appended_inv) simp_all
  then have xinv: "td_inv ?x 0" by simp
  have cpos: "\<forall>c \<in> set (centroids_m d). 0 < count c"
    and dcnt: "count_m d = sum_list (map count (centroids_m d))"
    using inv by (simp_all add: td_inv_def)
  have d0: "0 \<le> count_m d" unfolding dcnt using cpos by (intro sum_list_nonneg) auto
  have one: "min_m ?x = min DBL_MAX val \<and> max_m ?x = max (- DBL_MAX) val
             \<and> sum_m ?x = val \<and> centroids_m ?x = [?c]"
    if c1: "count_m ?x = 1"
  proof -
    have z: "count_m d = 0" and n1: "cnt = 1"
      using c1 d0 pos by (simp_all add: UpdateStats_def)
    then have "centroids_m d = []" using cpos dcnt by (intro counts_zero) simp_all
    then show ?thesis using s z n1 by (simp add: settled_def UpdateStats_def)
  qed
  have "settled ?x"
    using s d0 pos one by (auto simp: settled_def UpdateStats_def)
  then have "settled (DoMerge ?x)" using xinv by (intro DoMerge_settled)
  then show ?thesis
    using \<open>settled ?x\<close> AddUnmergedCentroid_cases [of ?u ?c] False
    by (auto simp: Add_def)
qed

lemma AddUnmergedCentroid_monotone:
  "min_m (AddUnmergedCentroid d c) \<le> min_m d" "max_m d \<le> max_m (AddUnmergedCentroid d c)"
  "count_m (AddUnmergedCentroid d c) = count_m d"
proof -
  let ?x = "d\<lparr>centroids_m := centroids_m d @ [c], unmerged_m := unmerged_m d + 1\<rparr>"
  have "min_m (DoMerge ?x) \<le> min_m d" "max_m d \<le> max_m (DoMerge ?x)"
    "count_m (DoMerge ?x) = count_m d"
    using DoMerge_monotone [of ?x] by simp_all
  then show "min_m (AddUnmergedCentroid d c) \<le> min_m d"
    "max_m d \<le> max_m (AddUnmergedCentroid d c)"
    "count_m (AddUnmergedCentroid d c) = count_m d"
    using AddUnmergedCentroid_cases [of d c] by auto
qed

lemma foldl_AddUnmergedCentroid_monotone:
  "min_m (foldl AddUnmergedCentroid d cs) \<le> min_m d
   \<and> max_m d \<le> max_m (foldl AddUnmergedCentroid d cs)
   \<and> count_m (foldl AddUnmergedCentroid d cs) = count_m d"
proof (induction cs arbitrary: d)
  case Nil
  then show ?case by simp
next
  case (Cons c cs)
  show ?case
    using Cons.IH [of "AddUnmergedCentroid d c"] AddUnmergedCentroid_monotone [of d c]
    by simp
qed

lemma Merge_settled:
  assumes inv: "td_inv d 0" and s: "settled d"
    and tinv: "td_inv that 0" and ts: "settled that"
  shows "settled (Merge d that)"
proof -
  let ?d1 = "if compression_m d = 0 then Reset (compression_m that) else d"
  let ?u = "UpdateStats ?d1 (min_m that) (max_m that) (sum_m that) (count_m that)"
  have c: "0 \<le> compression_m that" and tpos: "\<forall>c \<in> set (centroids_m that). 0 < count c"
    and tcnt: "count_m that = sum_list (map count (centroids_m that))"
    using tinv by (simp_all add: td_inv_def)
  have t0: "0 \<le> count_m that" unfolding tcnt using tpos by (intro sum_list_nonneg) auto
  have inv1: "td_inv ?d1 0" using inv c by (simp add: Reset_inv)
  have s1: "settled ?d1" using s by (simp add: Reset_settled)
  have pos1: "\<forall>c \<in> set (centroids_m ?d1). 0 < count c"
    and cnt1: "count_m ?d1 = sum_list (map count (centroids_m ?d1))"
    using inv1 unfolding td_inv_def by simp_all
  have d0: "0 \<le> count_m ?d1" unfolding cnt1 using pos1 by (intro sum_list_nonneg) auto
  have uinv: "td_inv ?u (0 + count_m that)" using inv1 t0 by (intro UpdateStats_inv)
  have m: "Merge d that = foldl AddUnmergedCentroid ?u (centroids_m that)"
    by (simp add: Merge_def Let_def)
  show ?thesis
  proof (cases "centroids_m that" rule: rev_cases)
    case Nil
    then have "count_m that = 0" using tcnt by simp
    then have "min_m that = DBL_MAX" "max_m that = - DBL_MAX" "sum_m that = 0"
      "count_m that = 0"
      using ts by (simp_all add: settled_def)
    moreover have "min_m ?d1 \<le> DBL_MAX" "- DBL_MAX \<le> max_m ?d1"
      using s1 unfolding settled_def by simp_all
    ultimately have "?u = ?d1" by (simp add: UpdateStats_def)
    then show ?thesis using s1 Nil m by simp
  next
    case (snoc ys y)
    let ?e = "foldl AddUnmergedCentroid ?u ys"
    let ?x = "?e\<lparr>centroids_m := centroids_m ?e @ [y], unmerged_m := unmerged_m ?e + 1\<rparr>"
    have ypos: "0 < count y" and yspos: "\<forall>c \<in> set ys. 0 < count c"
      using tpos snoc by simp_all
    have ys0: "0 \<le> sum_list (map count ys)" using yspos by (intro sum_list_nonneg) auto
    have tc: "count_m that = count y + sum_list (map count ys)" using tcnt snoc by simp
    have "td_inv ?u (count y + sum_list (map count ys))" using uinv tc by simp
    then have einv: "td_inv ?e (count y)"
      using ypos yspos by (intro foldl_AddUnmergedCentroid_inv) simp_all
    then have "td_inv ?x (count y - count y)" using ypos by (intro appended_inv) simp_all
    then have xinv: "td_inv ?x 0" by simp
    have r: "Merge d that = AddUnmergedCentroid ?e y" using m snoc by simp
    then have rc: "Merge d that = ?x \<or> Merge d that = DoMerge ?x"
      using AddUnmergedCentroid_cases [of ?e y] by simp
    have mono: "min_m (Merge d that) \<le> min_m ?u" "max_m ?u \<le> max_m (Merge d that)"
      "count_m (Merge d that) = count_m ?u"
      unfolding m using foldl_AddUnmergedCentroid_monotone [of ?u "centroids_m that"]
      by simp_all
    have ucount: "count_m ?u = count_m ?d1 + count_m that" by (simp add: UpdateStats_def)
    show ?thesis
    proof (cases "count_m (Merge d that) = 1")
      case True
      then have "count_m ?d1 + (count y + sum_list (map count ys)) = 1"
        using mono(3) ucount tc by simp
      then have z: "count_m ?d1 = 0" and y1: "count y = 1"
        and "sum_list (map count ys) = 0"
        using d0 ypos ys0 by simp_all
      then have ys: "ys = []" using yspos by (intro counts_zero)
      have cs1: "centroids_m ?d1 = []" using pos1 cnt1 z by (intro counts_zero) simp_all
      have t1: "count_m that = 1" using tc y1 ys by simp
      have tm: "min_m that = min DBL_MAX (mean y)" "max_m that = max (- DBL_MAX) (mean y)"
        "sum_m that = mean y"
        using ts t1 snoc unfolding settled_def by simp_all
      have dm: "min_m ?d1 = DBL_MAX" "max_m ?d1 = - DBL_MAX" "sum_m ?d1 = 0"
        using s1 z unfolding settled_def by simp_all
      have e: "?e = ?u" using ys by simp
      have "settled ?x"
        unfolding e using tm dm cs1 z t1
        by (simp add: settled_def UpdateStats_def)
      moreover from this have "settled (DoMerge ?x)" using xinv by (intro DoMerge_settled)
      ultimately show ?thesis using rc by metis
    next
      case False
      have b: "min_m (Merge d that) \<le> DBL_MAX" "- DBL_MAX \<le> max_m (Merge d that)"
      proof -
        have "min_m ?u \<le> min_m ?d1" "max_m ?d1 \<le> max_m ?u" by (simp_all add: UpdateStats_def)
        moreover have "min_m ?d1 \<le> DBL_MAX" "- DBL_MAX \<le> max_m ?d1"
          using s1 unfolding settled_def by simp_all
        ultimately show "min_m (Merge d that) \<le> DBL_MAX" "- DBL_MAX \<le> max_m (Merge d that)"
          using mono(1,2) by linarith+
      qed
      have nz: "count_m (Merge d that) \<noteq> 0"
        using mono(3) ucount tc d0 ypos ys0 by simp
      have fx: "merge_list (compression_m (Merge d that)) (count_m (Merge d that))
             (hd (centroids_m (Merge d that))) (count (hd (centroids_m (Merge d that))))
             (next_limit (compression_m (Merge d that)) (count_m (Merge d that)) 0)
             (tl (centroids_m (Merge d that))) = centroids_m (Merge d that)
           \<and> sum_m (Merge d that) = weighted_sum (centroids_m (Merge d that))"
        if un: "unmerged_m (Merge d that) = 0"
      proof -
        have ux: "0 < unmerged_m ?x" by simp
        then have "Merge d that \<noteq> ?x" using un by auto
        then have "Merge d that = DoMerge ?x" using rc by simp
        then show ?thesis using DoMerge_fixed [OF xinv ux] by simp
      qed
      show ?thesis
        using b nz False fx by (simp add: settled_def)
    qed
  qed
qed

lemma built_settled: "nonneg_calls b \<Longrightarrow> settled (digest_of b)"
proof (induction b)
  case (New compression)
  then show ?case by (simp add: Reset_settled)
next
  case (AddTo b val cnt)
  then show ?case by (simp add: Add_settled built_inv)
next
  case (MergeWith b that)
  then show ?case by (simp add: Merge_settled built_inv)
next
  case (Forced b)
  then show ?case by (simp add: DoMerge_settled built_inv)
qed

subsection \<open>Printing and parsing back\<close>

lemma StrSplit_joined:
  "CHR ''/'' \<notin> set t \<Longrightarrow> \<forall>x \<in> set xs. CHR ''/'' \<notin> set (f x) \<Longrightarrow>
     StrSplit (t @ concat (map (\<lambda>x. CHR ''/'' # f x) xs)) CHR ''/'' = t # map f xs"
proof (induction xs arbitrary: t)
  case Nil
  then show ?case by (simp add: StrSplit_last)
next
  case (Cons x xs)
  have "StrSplit (t @ CHR ''/'' # (f x @ concat (map (\<lambda>x. CHR ''/'' # f x) xs))) CHR ''/''
        = t # StrSplit (f x @ concat (map (\<lambda>x. CHR ''/'' # f x) xs)) CHR ''/''"
    using Cons.prems(1) by (rule StrSplit_token)
  also have "StrSplit (f x @ concat (map (\<lambda>x. CHR ''/'' # f x) xs)) CHR ''/'' = f x # map f xs"
    using Cons.prems(2) by (intro Cons.IH) simp_all
  finally show ?case by simp
qed

lemma parse_printed:
  assumes "\<forall>c \<in> set cs. SimpleAtod (g (mean c)) = Some (mean c)
             \<and> CHR '':'' \<notin> set (g (mean c)) \<and> SimpleAtoi (h (count c)) = Some (count c)"
  shows "parse_centroids SimpleAtod SimpleAtoi d
           (map (\<lambda>c. g (mean c) @ CHR '':'' # h (count c)) cs)
         = (None, foldl (\<lambda>d c. Add d (mean c) (count c)) d cs)"
  using assms
proof (induction cs arbitrary: d)
  case Nil
  then show ?case by simp
next
  case (Cons c cs)
  let ?tok = "g (mean c) @ CHR '':'' # h (count c)"
  have nc: "CHR '':'' \<notin> set (g (mean c))" using Cons.prems by simp
  have tw: "takeWhile (\<lambda>x. x \<noteq> CHR '':'') ?tok = g (mean c)"
    using nc by (subst takeWhile_append2) auto
  have p: "take (length (g (mean c))) ?tok = g (mean c)"
    "drop (Suc (length (g (mean c)))) ?tok = h (count c)"
    by simp_all
  have r: "SimpleAtod (g (mean c)) = Some (mean c)" "SimpleAtoi (h (count c)) = Some (count c)"
    using Cons.prems by simp_all
  have "parse_centroids SimpleAtod SimpleAtoi d (?tok # map (\<lambda>c. g (mean c) @ CHR '':'' # h (count c)) cs)
        = parse_centroids SimpleAtod SimpleAtoi (Add d (mean c) (count c))
            (map (\<lambda>c. g (mean c) @ CHR '':'' # h (count c)) cs)"
    by (simp add: tw p r Let_def del: take_append drop_append)
  then show ?case using Cons.IH [of "Add d (mean c) (count c)"] Cons.prems by simp
qed

lemma foldl_Add_unmerged:
  assumes "\<forall>c \<in> set cs. count c \<noteq> 0"
    and "unmerged_m d + length cs < batch_size_m d \<or> batch_size_m d \<le> unmerged_m d"
  shows "centroids_m (foldl (\<lambda>d c. Add d (mean c) (count c)) d cs) = centroids_m d @ cs
         \<and> unmerged_m (foldl (\<lambda>d c. Add d (mean c) (count c)) d cs) = unmerged_m d + length cs
         \<and> merged_m (foldl (\<lambda>d c. Add d (mean c) (count c)) d cs) = merged_m d
         \<and> compression_m (foldl (\<lambda>d c. Add d (mean c) (count c)) d cs) = compression_m d
         \<and> count_m (foldl (\<lambda>d c. Add d (mean c) (count c)) d cs)
             = count_m d + sum_list (map count cs)"
  using assms
proof (induction cs arbitrary: d)
  case Nil
  then show ?case by simp
next
  case (Cons c cs)
  let ?x = "(UpdateStats d (mean c) (mean c) (mean c * real_of_int (count c)) (count c))
              \<lparr>centroids_m := centroids_m d @ [c], unmerged_m := unmerged_m d + 1\<rparr>"
  have nz: "count c \<noteq> 0" and rest: "\<forall>c \<in> set cs. count c \<noteq> 0" using Cons.prems(1) by simp_all
  have nb: "unmerged_m d + 1 \<noteq> batch_size_m d" using Cons.prems(2) by auto
  have a: "Add d (mean c) (count c) = ?x"
    using nz nb by (simp add: Add_def AddUnmergedCentroid_def UpdateStats_def Let_def)
  have b: "unmerged_m ?x + length cs < batch_size_m ?x \<or> batch_size_m ?x \<le> unmerged_m ?x"
    using Cons.prems(2) by (auto simp: UpdateStats_def)
  show ?case
    using Cons.IH [OF rest b] by (simp add: a UpdateStats_def)
qed

lemma Reset_bounded:
  assumes "0 \<le> c" and "c \<le> kMaxCompression"
  shows "Reset c = \<lparr>compression_m = c, batch_size_m = 4 * MaxCentroids c, centroids_m = [],
      merged_m = 0, unmerged_m = 0, min_m = DBL_MAX, max_m = - DBL_MAX, sum_m = 0, count_m = 0\<rparr>"
  using assms by (simp add: Reset_def BoundedCompression_def Let_def)

lemma batch_not_one: "4 * MaxCentroids c \<noteq> Suc 0"
  by (simp add: MaxCentroids_def)

text \<open>
  C1, as the code has it. Take any program that builds a digest \<open>D\<close> with the
  constructor, \<open>Add\<close> and \<open>Merge\<close>, passes no negative count (and no negative
  compression) and keeps \<open>count_\<close> within \<open>int64_t\<close>. If the centroids that a merge of
  \<open>D\<close> leaves are in the order of the sort, by mean and then by count, and the printers
  and parsers agree on the numbers of the merged \<open>D\<close>, then \<open>ToString\<close> returns a text,
  \<open>FromString\<close> reads it with status OK, and the digest read has the compression,
  count, min, max, centroid sequence and sum of \<open>D\<close> as \<open>ToString\<close> left it.
\<close>

theorem ToString_FromString_round_trip:
  assumes built: "nonneg_calls b"
    and sorted_ties: "sort_centroids (centroids_m (DoMerge (digest_of b)))
                      = centroids_m (DoMerge (digest_of b))"
    and rb: "reads_back SimpleAtod SimpleAtoi StrCat FormatG FormatD (DoMerge (digest_of b))"
  shows "\<exists>s. fst (ToString StrCat FormatG FormatD (digest_of b)) = Some s
           \<and> fst (FromString SimpleAtod SimpleAtoi e s) = OkStatus
           \<and> compression_m (snd (FromString SimpleAtod SimpleAtoi e s))
               = compression_m (snd (ToString StrCat FormatG FormatD (digest_of b)))
           \<and> count_m (snd (FromString SimpleAtod SimpleAtoi e s))
               = count_m (snd (ToString StrCat FormatG FormatD (digest_of b)))
           \<and> min_m (snd (FromString SimpleAtod SimpleAtoi e s))
               = min_m (snd (ToString StrCat FormatG FormatD (digest_of b)))
           \<and> max_m (snd (FromString SimpleAtod SimpleAtoi e s))
               = max_m (snd (ToString StrCat FormatG FormatD (digest_of b)))
           \<and> centroids_m (snd (FromString SimpleAtod SimpleAtoi e s))
               = centroids_m (snd (ToString StrCat FormatG FormatD (digest_of b)))
           \<and> sum_m (snd (FromString SimpleAtod SimpleAtoi e s))
               = sum_m (snd (ToString StrCat FormatG FormatD (digest_of b)))"
proof -
  let ?d = "digest_of b" and ?m = "DoMerge (digest_of b)"
  have inv: "td_inv ?d 0" using built by (rule built_inv)
  have st: "settled ?d" using built by (rule built_settled)
  note mi = DoMerge_inv [OF inv]
  have ms: "settled ?m" using inv st by (rule DoMerge_settled)
  define c where "c = compression_m ?d"
  have c: "0 \<le> c" "c \<le> kMaxCompression" using inv by (simp_all add: td_inv_def c_def)
  have mc: "compression_m ?m = c" using mi(3) by (simp add: c_def)
  note rc = Reset_bounded [OF c]
  define t0 where "t0 = StrCat c"
  have t0: "SimpleAtod t0 = Some c" "t0 \<noteq> []" "CHR ''/'' \<notin> set t0"
    using rb by (simp_all add: reads_back_def mc t0_def)
  have z0: "SimpleAtod ''0'' = Some 0" "SimpleAtoi ''0'' = Some 0"
    using rb by (simp_all add: reads_back_def)
  have pos: "\<forall>x \<in> set (centroids_m ?d). 0 < count x"
    and cnt: "count_m ?d = sum_list (map count (centroids_m ?d))"
    using inv by (simp_all add: td_inv_def)
  have d0: "0 \<le> count_m ?d" unfolding cnt using pos by (intro sum_list_nonneg) auto
  then consider (zero) "count_m ?d = 0" | (one) "count_m ?d = 1" | (more) "2 \<le> count_m ?d"
    by linarith
  then show ?thesis
  proof cases
    case zero
    have ts: "ToString StrCat FormatG FormatD ?d = (Some (t0 @ ''/0/0/0/0''), ?d)"
      using zero by (simp add: ToString_def t0_def c_def)
    have toks: "StrSplit (t0 @ ''/0/0/0/0'') CHR ''/'' = [t0, ''0'', ''0'', ''0'', ''0'']"
      using t0(3) by (simp add: StrSplit_token)
    have fs: "FromString SimpleAtod SimpleAtoi e (t0 @ ''/0/0/0/0'') = (OkStatus, Reset c)"
      using t0 z0 c(1) by (simp add: FromString_def toks del: StrSplit.simps)
    have "min_m ?d = DBL_MAX" "max_m ?d = - DBL_MAX" "sum_m ?d = 0"
      using st zero by (simp_all add: settled_def)
    moreover have "centroids_m ?d = []" using pos cnt zero by (intro counts_zero) simp_all
    ultimately show ?thesis using zero by (simp add: ts fs rc c_def [symmetric])
  next
    case one
    obtain c1 where c1: "centroids_m ?d = [c1]" "count c1 = 1"
      using counts_one [OF pos] cnt one by auto
    have "centroids_m ?m = [c1]"
    proof (cases "unmerged_m ?d = 0")
      case True
      then show ?thesis using c1 by (simp add: DoMerge_noop)
    next
      case False
      then have un: "0 < unmerged_m ?d" by simp
      have len: "merged_m ?d + unmerged_m ?d = length (centroids_m ?d)"
        using inv by (simp add: td_inv_def)
      have srt: "sort_centroids (centroids_m ?d) = c1 # []" by (simp add: c1 sort_centroids_def)
      show ?thesis using DoMerge_fields(1) [OF un len srt refl] by simp
    qed
    then have g: "SimpleAtod (FormatG (mean c1)) = Some (mean c1)"
      "CHR ''/'' \<notin> set (FormatG (mean c1))"
      using rb by (simp_all add: reads_back_def)
    have ts: "ToString StrCat FormatG FormatD ?d
              = (Some (t0 @ CHR ''/'' # FormatG (mean c1)), ?d)"
      using one c1 by (simp add: ToString_def t0_def c_def read_at_def)
    have toks: "StrSplit (t0 @ CHR ''/'' # FormatG (mean c1)) CHR ''/''
                 = [t0, FormatG (mean c1)]"
      using t0(3) g(2) by (simp add: StrSplit_token StrSplit_last)
    have fs: "FromString SimpleAtod SimpleAtoi e (t0 @ CHR ''/'' # FormatG (mean c1))
              = (OkStatus, Add (Reset c) (mean c1) 1)"
      using t0 g(1) c(1) by (simp add: FromString_def toks del: StrSplit.simps)
    have a: "Add (Reset c) (mean c1) 1
             = \<lparr>compression_m = c, batch_size_m = 4 * MaxCentroids c,
                centroids_m = [\<lparr>mean = mean c1, count = 1\<rparr>],
                merged_m = 0, unmerged_m = 1, min_m = min DBL_MAX (mean c1),
                max_m = max (- DBL_MAX) (mean c1), sum_m = mean c1, count_m = 1\<rparr>"
      by (simp add: rc Add_def AddUnmergedCentroid_def UpdateStats_def Let_def batch_not_one
          batch_not_one [symmetric])
    have "min_m ?d = min DBL_MAX (mean c1)" "max_m ?d = max (- DBL_MAX) (mean c1)"
      "sum_m ?d = mean c1"
      using st one c1 by (simp_all add: settled_def)
    moreover have "\<lparr>mean = mean c1, count = 1\<rparr> = c1" using c1(2) by simp
    ultimately show ?thesis using one c1 by (simp add: ts fs a c_def [symmetric])
  next
    case more
    let ?cs = "centroids_m ?m"
    let ?tok = "\<lambda>c. FormatG (mean c) @ CHR '':'' # FormatD (count c)"
    let ?d2 = "foldl (\<lambda>d c. Add d (mean c) (count c)) (Reset c) ?cs"
    have mcount: "count_m ?m = count_m ?d" by (rule mi(4))
    have mun: "unmerged_m ?m = 0" by (rule mi(2))
    have mpos: "\<forall>x \<in> set ?cs. 0 < count x"
      and msum: "count_m ?m = sum_list (map count ?cs)"
      and mlen: "0 < c \<longrightarrow> length ?cs \<le> MaxCentroids c"
      using mi(1) mun mc by (simp_all add: td_inv_def)
    have ne: "?cs \<noteq> []" using msum mcount more by auto
    have fixed: "merge_list c (count_m ?m) (hd ?cs) (count (hd ?cs))
                   (next_limit c (count_m ?m) 0) (tl ?cs) = ?cs"
      and msm: "sum_m ?m = weighted_sum ?cs"
      using ms mun ne mc by (simp_all add: settled_def)
    have gd: "\<forall>x \<in> set ?cs. SimpleAtod (FormatG (mean x)) = Some (mean x)
                \<and> CHR '':'' \<notin> set (FormatG (mean x))
                \<and> SimpleAtoi (FormatD (count x)) = Some (count x)"
      and gs: "\<forall>x \<in> set ?cs. CHR ''/'' \<notin> set (?tok x)"
      and hd: "SimpleAtod (FormatG (min_m ?m)) = Some (min_m ?m)"
        "SimpleAtod (FormatG (max_m ?m)) = Some (max_m ?m)"
        "SimpleAtod (FormatG (sum_m ?m)) = Some (sum_m ?m)"
        "SimpleAtoi (FormatD (count_m ?m)) = Some (count_m ?m)"
      and hs: "CHR ''/'' \<notin> set (FormatG (min_m ?m))" "CHR ''/'' \<notin> set (FormatG (max_m ?m))"
        "CHR ''/'' \<notin> set (FormatG (sum_m ?m))" "CHR ''/'' \<notin> set (FormatD (count_m ?m))"
      using rb by (simp_all add: reads_back_def)
    let ?s = "t0 @ CHR ''/'' # FormatG (min_m ?m) @ CHR ''/'' # FormatG (max_m ?m)
                 @ CHR ''/'' # FormatG (sum_m ?m) @ CHR ''/'' # FormatD (count_m ?m)
                 @ concat (map (\<lambda>c. CHR ''/'' # ?tok c) ?cs)"
    have ts: "ToString StrCat FormatG FormatD ?d = (Some ?s, ?m)"
      using more by (simp add: ToString_def Let_def t0_def c_def)
    have toks: "StrSplit ?s CHR ''/''
                 = t0 # FormatG (min_m ?m) # FormatG (max_m ?m) # FormatG (sum_m ?m)
                   # FormatD (count_m ?m) # map ?tok ?cs"
      using t0(3) hs StrSplit_joined [of "FormatD (count_m ?m)" ?cs ?tok, OF hs(4) gs]
      by (simp add: StrSplit_token del: StrSplit.simps)
    have parse: "parse_centroids SimpleAtod SimpleAtoi (Reset c) (map ?tok ?cs) = (None, ?d2)"
      using gd by (rule parse_printed)
    have nz: "\<forall>x \<in> set ?cs. count x \<noteq> 0" using mpos by auto
    have room: "unmerged_m (Reset c) + length ?cs < batch_size_m (Reset c)
                \<or> batch_size_m (Reset c) \<le> unmerged_m (Reset c)"
    proof (cases "0 < c")
      case True
      then have "0 < MaxCentroids c" using c by (simp add: MaxCentroids_bounded)
      then show ?thesis using mlen True by (simp add: rc)
    next
      case False
      then have "c = 0" using c(1) by simp
      then have "MaxCentroids c = 0" by (simp add: MaxCentroids_def BoundedCompression_def)
      then show ?thesis unfolding rc by simp
    qed
    note f2 = foldl_Add_unmerged [OF nz room]
    have d2: "centroids_m ?d2 = ?cs" "unmerged_m ?d2 = length ?cs" "merged_m ?d2 = 0"
      "compression_m ?d2 = c" "count_m ?d2 = count_m ?m"
      using f2 by (simp_all add: rc msum)
    have un2: "0 < unmerged_m ?d2" using ne by (simp add: d2)
    have len2: "merged_m ?d2 + unmerged_m ?d2 = length (centroids_m ?d2)" by (simp add: d2)
    have srt: "sort_centroids (centroids_m ?d2) = hd ?cs # tl ?cs"
      using sorted_ties ne by (simp add: d2)
    have L: "merge_list (compression_m ?d2) (count_m ?d2) (hd ?cs) (count (hd ?cs))
               (of_count (count_m ?d2) * CentroidToQuantile (compression_m ?d2) 1) (tl ?cs)
             = ?cs"
      using fixed by (simp add: d2 first_limit)
    note g2 = DoMerge_fields [OF un2 len2 srt L [symmetric]]
    have sum2: "sum_m (DoMerge ?d2) = sum_m ?m"
      using DoMerge_sum [OF un2 len2 srt] by (simp add: L msm)
    have fs: "FromString SimpleAtod SimpleAtoi e ?s
              = (OkStatus, (DoMerge ?d2)\<lparr>min_m := min_m ?m, max_m := max_m ?m\<rparr>)"
      using t0 hd c(1) ne
      by (simp add: FromString_def toks parse g2 d2 del: StrSplit.simps parse_centroids.simps)
    show ?thesis
      by (simp add: ts fs g2 d2 sum2 mc)
  qed
qed

declare digits.simps [simp del]

lemma digits_examples:
  "digits 0 = ''0''" "digits 1 = ''1''" "digits (Suc 0) = ''1''" "digits 2 = ''2''" "digits 3 = ''3''"
  "digits 4 = ''4''" "digits 5 = ''5''" "digits 7 = ''7''" "digits 12 = ''12''"
  "digits 16 = ''16''" "digits 100 = ''100''"
  by (simp_all add: digits.simps)

lemma arcsin_half: "arcsin (1 / 2) = pi / 6"
proof -
  have "arcsin (sin (pi / 6)) = pi / 6" by (rule arcsin_sin) (use pi_gt_zero in auto)
  then show ?thesis by (simp add: sin_30)
qed

lemma first_limit_3: "next_limit 3 16 0 = Val 4"
proof -
  have "pi / 3 - pi / 2 = - (pi / 6)" by simp
  then have "sin (pi / 3 - pi / 2) = - (1 / 2)" by (simp only: sin_minus sin_30)
  then have "CentroidToQuantile 3 1 = Val (1 / 4)" by (simp add: CentroidToQuantile_def)
  then show ?thesis by (simp add: first_limit [symmetric] of_count_def)
qed

lemma second_limit_3: "next_limit 3 16 4 = Val 12"
proof -
  have "arcsin (- (1 / 2)) = - (pi / 6)" by (simp add: arcsin_minus arcsin_half)
  then have "arcsin (2 * (real_of_int 4 / real_of_int 16) - 1) = - (pi / 6)" by simp
  then have q: "QuantileToCentroid 3 (real_of_int 4 / real_of_int 16) = 1"
    unfolding QuantileToCentroid_def by simp
  have "2 * pi / 3 - pi / 2 = pi / 6" by simp
  then have "sin (2 * pi / 3 - pi / 2) = 1 / 2" by (simp only: sin_30)
  then have "CentroidToQuantile 3 (1 + 1) = Val (3 / 4)" by (simp add: CentroidToQuantile_def)
  then show ?thesis unfolding next_limit_def q by (simp add: of_count_def)
qed

theorem ToString_FromString_round_trip_witness:
  "nonneg_calls two_centroid_build
   \<and> sort_centroids (centroids_m (DoMerge (digest_of two_centroid_build)))
       = centroids_m (DoMerge (digest_of two_centroid_build))
   \<and> reads_back atod_digits atoi_digits format_whole format_whole format_count
         (DoMerge (digest_of two_centroid_build))
   \<and> fst (ToString format_whole format_whole format_count (digest_of two_centroid_build))
       = Some ''100/1/3/4/2/1:1/3:1''
   \<and> fst (FromString atod_digits atoi_digits (Reset 0) ''100/1/3/4/2/1:1/3:1'') = OkStatus
   \<and> compression_m (snd (FromString atod_digits atoi_digits (Reset 0) ''100/1/3/4/2/1:1/3:1''))
       = 100
   \<and> count_m (snd (FromString atod_digits atoi_digits (Reset 0) ''100/1/3/4/2/1:1/3:1'')) = 2
   \<and> min_m (snd (FromString atod_digits atoi_digits (Reset 0) ''100/1/3/4/2/1:1/3:1'')) = 1
   \<and> max_m (snd (FromString atod_digits atoi_digits (Reset 0) ''100/1/3/4/2/1:1/3:1'')) = 3
   \<and> centroids_m (snd (FromString atod_digits atoi_digits (Reset 0) ''100/1/3/4/2/1:1/3:1''))
       = [\<lparr>mean = 1, count = 1\<rparr>, \<lparr>mean = 3, count = 1\<rparr>]
   \<and> sum_m (snd (FromString atod_digits atoi_digits (Reset 0) ''100/1/3/4/2/1:1/3:1'')) = 4"
proof -
  have h1: "nonneg_calls two_centroid_build" by (rule two_centroid_build_ok)
  have h2: "sort_centroids (centroids_m (DoMerge (digest_of two_centroid_build)))
            = centroids_m (DoMerge (digest_of two_centroid_build))"
    by (simp add: two_centroid_build_digest two_centroid_digest_merged sort_centroids_def)
  have h3: "reads_back atod_digits atoi_digits format_whole format_whole format_count
              (DoMerge (digest_of two_centroid_build))"
    by (simp add: reads_back_def two_centroid_build_digest two_centroid_digest_merged
        format_whole_def format_count_def digits_examples atod_digits_def atoi_digits_def
        digits_value_def)
  have f: "compression_m two_centroid_digest = 100" "count_m two_centroid_digest = 2"
    by (simp_all add: two_centroid_digest_eq)
  have ts: "ToString format_whole format_whole format_count (digest_of two_centroid_build)
            = (Some ''100/1/3/4/2/1:1/3:1'', DoMerge two_centroid_digest)"
    by (simp add: ToString_def Let_def two_centroid_build_digest two_centroid_digest_merged f
        format_whole_def format_count_def digits_examples)
  show ?thesis
    using h1 h2 h3 ToString_FromString_round_trip [OF h1 h2 h3, of "Reset 0"]
    by (simp add: ts two_centroid_digest_merged)
qed

lemma DBL_MAX_zero: "min DBL_MAX 0 = 0" "max (- DBL_MAX) 0 = 0"
  by (simp_all add: DBL_MAX_def)

lemma Reset_3:
  "Reset 3 = \<lparr>compression_m = 3, batch_size_m = 24, centroids_m = [],
      merged_m = 0, unmerged_m = 0, min_m = DBL_MAX, max_m = - DBL_MAX, sum_m = 0, count_m = 0\<rparr>"
  by (simp add: Reset_def BoundedCompression_def MaxCentroids_def kMaxCompression_def Let_def)

lemma tied_digest_eq:
  "digest_of tied_build =
     \<lparr>compression_m = 3, batch_size_m = 24,
      centroids_m = [\<lparr>mean = 0, count = 4\<rparr>, \<lparr>mean = 1, count = 3\<rparr>,
                     \<lparr>mean = 1, count = 4\<rparr>, \<lparr>mean = 1, count = 5\<rparr>],
      merged_m = 0, unmerged_m = 4, min_m = 0, max_m = 1, sum_m = 12, count_m = 16\<rparr>"
  by (simp add: tied_build_def Reset_3 Add_def AddUnmergedCentroid_def UpdateStats_def
      DBL_MAX_zero Let_def)

lemma tied_merge:
  "merge_list 3 16 \<lparr>mean = 0, count = 4\<rparr> 4 (next_limit 3 16 0)
     [\<lparr>mean = 1, count = 3\<rparr>, \<lparr>mean = 1, count = 4\<rparr>, \<lparr>mean = 1, count = 5\<rparr>]
   = [\<lparr>mean = 0, count = 4\<rparr>, \<lparr>mean = 1, count = 7\<rparr>, \<lparr>mean = 1, count = 5\<rparr>]"
  by (simp add: first_limit_3 second_limit_3 absorb_def of_count_def)

lemma tied_digest_merged:
  "DoMerge (digest_of tied_build) =
     \<lparr>compression_m = 3, batch_size_m = 24,
      centroids_m = [\<lparr>mean = 0, count = 4\<rparr>, \<lparr>mean = 1, count = 7\<rparr>,
                     \<lparr>mean = 1, count = 5\<rparr>],
      merged_m = 3, unmerged_m = 0, min_m = 0, max_m = 1, sum_m = 12, count_m = 16\<rparr>"
proof -
  let ?d = "digest_of tied_build"
  have un: "0 < unmerged_m ?d" and len: "merged_m ?d + unmerged_m ?d = length (centroids_m ?d)"
    by (simp_all add: tied_digest_eq)
  have s: "sort_centroids (centroids_m ?d)
           = \<lparr>mean = 0, count = 4\<rparr>
             # [\<lparr>mean = 1, count = 3\<rparr>, \<lparr>mean = 1, count = 4\<rparr>, \<lparr>mean = 1, count = 5\<rparr>]"
    by (simp add: tied_digest_eq sort_centroids_def)
  have L: "[\<lparr>mean = 0, count = 4\<rparr>, \<lparr>mean = 1, count = 7\<rparr>, \<lparr>mean = 1, count = 5\<rparr>]
           = merge_list (compression_m ?d) (count_m ?d) \<lparr>mean = 0, count = 4\<rparr>
               (count \<lparr>mean = 0, count = 4\<rparr>)
               (of_count (count_m ?d) * CentroidToQuantile (compression_m ?d) 1)
               [\<lparr>mean = 1, count = 3\<rparr>, \<lparr>mean = 1, count = 4\<rparr>, \<lparr>mean = 1, count = 5\<rparr>]"
    unfolding first_limit using tied_merge
    by (simp only: tied_digest_eq TDigest.simps CentroidPod.simps)
  note f = DoMerge_fields [OF un len s L]
  have sm: "sum_m (DoMerge ?d) = 12"
    using DoMerge_sum [OF un len s] unfolding L [symmetric] by (simp add: weighted_sum_def)
  show ?thesis
  proof (rule TDigest.equality)
  qed (use f sm in \<open>simp_all add: tied_digest_eq\<close>)
qed

lemma tied_digest_fields:
  "compression_m (digest_of tied_build) = 3" "count_m (digest_of tied_build) = 16"
  by (simp_all add: tied_digest_eq)

text \<open>
  C1 as stated fails on the order of the centroids: a merge leaves them sorted by
  mean, while \<open>FromString\<close> adds them again and its merge sorts by mean and then by
  count. \<open>TDigest(3)\<close> after \<open>Add(0, 4)\<close>, \<open>Add(1, 3)\<close>, \<open>Add(1, 4)\<close> and \<open>Add(1, 5)\<close>
  prints \<open>3/0/1/12/16/0:4/1:7/1:5\<close> and holds the centroids (0, 4), (1, 7), (1, 5);
  the text is read with status OK into the centroids (0, 4), (1, 5), (1, 7).
\<close>

theorem round_trip_reorders_ties:
  "fst (ToString format_whole format_whole format_count (digest_of tied_build))
     = Some ''3/0/1/12/16/0:4/1:7/1:5''
   \<and> centroids_m (snd (ToString format_whole format_whole format_count (digest_of tied_build)))
       = [\<lparr>mean = 0, count = 4\<rparr>, \<lparr>mean = 1, count = 7\<rparr>, \<lparr>mean = 1, count = 5\<rparr>]
   \<and> fst (FromString atod_digits atoi_digits (Reset 0) ''3/0/1/12/16/0:4/1:7/1:5'') = OkStatus
   \<and> centroids_m (snd (FromString atod_digits atoi_digits (Reset 0) ''3/0/1/12/16/0:4/1:7/1:5''))
       = [\<lparr>mean = 0, count = 4\<rparr>, \<lparr>mean = 1, count = 5\<rparr>, \<lparr>mean = 1, count = 7\<rparr>]"
proof -
  let ?p = "\<lparr>compression_m = 3, batch_size_m = 24,
      centroids_m = [\<lparr>mean = 0, count = 4\<rparr>, \<lparr>mean = 1, count = 7\<rparr>,
                     \<lparr>mean = 1, count = 5\<rparr>],
      merged_m = 0, unmerged_m = 3, min_m = 0, max_m = 1, sum_m = 12, count_m = 16\<rparr>"
  have ts: "ToString format_whole format_whole format_count (digest_of tied_build)
            = (Some ''3/0/1/12/16/0:4/1:7/1:5'', DoMerge (digest_of tied_build))"
    by (simp add: ToString_def Let_def tied_digest_merged tied_digest_fields format_whole_def
        format_count_def digits_examples)
  have parse: "parse_centroids atod_digits atoi_digits (Reset 3) [''0:4'', ''1:7'', ''1:5'']
               = (None, ?p)"
    by (simp add: Reset_3 Add_def AddUnmergedCentroid_def UpdateStats_def DBL_MAX_zero Let_def
        atod_digits_def atoi_digits_def digits_value_def)
  have un: "0 < unmerged_m ?p" and len: "merged_m ?p + unmerged_m ?p = length (centroids_m ?p)"
    by simp_all
  have s: "sort_centroids (centroids_m ?p)
           = \<lparr>mean = 0, count = 4\<rparr> # [\<lparr>mean = 1, count = 5\<rparr>, \<lparr>mean = 1, count = 7\<rparr>]"
    by (simp add: sort_centroids_def)
  have "merge_list 3 16 \<lparr>mean = 0, count = 4\<rparr> 4 (next_limit 3 16 0)
          [\<lparr>mean = 1, count = 5\<rparr>, \<lparr>mean = 1, count = 7\<rparr>]
        = [\<lparr>mean = 0, count = 4\<rparr>, \<lparr>mean = 1, count = 5\<rparr>, \<lparr>mean = 1, count = 7\<rparr>]"
    by (simp add: first_limit_3 second_limit_3 of_count_def)
  then have L: "[\<lparr>mean = 0, count = 4\<rparr>, \<lparr>mean = 1, count = 5\<rparr>, \<lparr>mean = 1, count = 7\<rparr>]
           = merge_list (compression_m ?p) (count_m ?p) \<lparr>mean = 0, count = 4\<rparr>
               (count \<lparr>mean = 0, count = 4\<rparr>)
               (of_count (count_m ?p) * CentroidToQuantile (compression_m ?p) 1)
               [\<lparr>mean = 1, count = 5\<rparr>, \<lparr>mean = 1, count = 7\<rparr>]"
    unfolding first_limit by (simp only: TDigest.simps CentroidPod.simps)
  note f = DoMerge_fields [OF un len s L]
  have toks: "StrSplit ''3/0/1/12/16/0:4/1:7/1:5'' CHR ''/''
              = [''3'', ''0'', ''1'', ''12'', ''16'', ''0:4'', ''1:7'', ''1:5'']"
    by simp
  have nums: "atod_digits ''3'' = Some 3" "atod_digits ''0'' = Some 0"
    "atod_digits ''1'' = Some 1" "atod_digits ''12'' = Some 12" "atoi_digits ''16'' = Some 16"
    by (simp_all add: atod_digits_def atoi_digits_def digits_value_def)
  have fs: "fst (FromString atod_digits atoi_digits (Reset 0) ''3/0/1/12/16/0:4/1:7/1:5'')
              = OkStatus
            \<and> centroids_m (snd (FromString atod_digits atoi_digits (Reset 0)
                                    ''3/0/1/12/16/0:4/1:7/1:5''))
              = [\<lparr>mean = 0, count = 4\<rparr>, \<lparr>mean = 1, count = 5\<rparr>, \<lparr>mean = 1, count = 7\<rparr>]"
    by (simp add: FromString_def toks nums parse f
        del: StrSplit.simps parse_centroids.simps)
  show ?thesis using fs by (simp add: ts tied_digest_merged)
qed

section \<open>Properties of configuration loading\<close>

text \<open>
  C9. The bool overload of \<open>LoadConfigFromEnv\<close> returns its default for every variable
  name and every environment; two environments give the same result.
\<close>

theorem LoadConfigFromEnv_bool_default:
  "LoadConfigFromEnv_bool env environment_variable default_value = default_value
   \<and> LoadConfigFromEnv_bool env1 environment_variable default_value
       = LoadConfigFromEnv_bool env2 environment_variable default_value"
  by (simp add: LoadConfigFromEnv_bool_def)

end
